theory Spec2Isabelle
  imports Main "HOL-Library.Tree" "HOL-Library.Word"
begin

section \<open>The node store\<close>

text \<open>
  An \<open>RbstNode\<close> holds three pointers and a size. Pointers are addresses, \<open>NULL\<close> is
  \<open>None\<close>. The nodes live in a store that maps every address to the fields found there.
  \<open>m_size\<close> is a \<open>size_t\<close> counting nodes of a subtree; a tree cannot hold more nodes
  than there are addresses, so the count is modelled by a natural number.
\<close>

type_synonym addr = nat

record node =
  m_left :: "addr option"
  m_right :: "addr option"
  m_parent :: "addr option"
  m_size :: nat

type_synonym heap = "addr \<Rightarrow> node"

text \<open>\<open>static size_t size(const RbstNode *node)\<close>: the size of a subtree, 0 for \<open>NULL\<close>.\<close>

definition size_ptr :: "heap \<Rightarrow> addr option \<Rightarrow> nat" where
  "size_ptr h p = (case p of None \<Rightarrow> 0 | Some a \<Rightarrow> m_size (h a))"

text \<open>
  The functions below follow pointers through the store, so they need not return on a
  store that is not a tree. They are partial functions: \<open>None\<close> says that the call does
  not return a result, because it dereferences \<open>NULL\<close> or runs forever.
\<close>

text \<open>\<open>RbstNode::at(index)\<close>\<close>

partial_function (option) at :: "heap \<Rightarrow> addr \<Rightarrow> nat \<Rightarrow> addr option" where
  "at h this index =
     (let n = size_ptr h (m_left (h this)) in
      if index < n then
        (case m_left (h this) of None \<Rightarrow> None | Some l \<Rightarrow> at h l index)
      else if index > n then
        (case m_right (h this) of None \<Rightarrow> None | Some r \<Rightarrow> at h r (index - n - 1))
      else Some this)"

text \<open>\<open>RbstNode::first()\<close> and \<open>RbstNode::last()\<close>\<close>

partial_function (option) first :: "heap \<Rightarrow> addr \<Rightarrow> addr option" where
  "first h this = (case m_left (h this) of Some l \<Rightarrow> first h l | None \<Rightarrow> Some this)"

partial_function (option) last_node :: "heap \<Rightarrow> addr \<Rightarrow> addr option" where
  "last_node h this = (case m_right (h this) of Some r \<Rightarrow> last_node h r | None \<Rightarrow> Some this)"

text \<open>
  \<open>RbstNode::previous()\<close> and \<open>RbstNode::next()\<close>. The result is a pointer that may be
  \<open>NULL\<close>, so a call that returns gives \<open>Some p\<close> with \<open>p\<close> an optional address.
  The \<open>while\<close> loop that climbs through parent links is a function of its own.
\<close>

partial_function (option) previous_loop :: "heap \<Rightarrow> addr \<Rightarrow> addr option option" where
  "previous_loop h node =
     (case m_parent (h node) of
        None \<Rightarrow> Some (m_parent (h node))
      | Some p \<Rightarrow>
          if Some node = m_left (h p) then previous_loop h p
          else Some (m_parent (h node)))"

definition previous :: "heap \<Rightarrow> addr \<Rightarrow> addr option option" where
  "previous h this =
     (case m_left (h this) of
        Some l \<Rightarrow> map_option Some (last_node h l)
      | None \<Rightarrow> previous_loop h this)"

partial_function (option) next_loop :: "heap \<Rightarrow> addr \<Rightarrow> addr option option" where
  "next_loop h node =
     (case m_parent (h node) of
        None \<Rightarrow> Some (m_parent (h node))
      | Some p \<Rightarrow>
          if Some node = m_right (h p) then next_loop h p
          else Some (m_parent (h node)))"

definition next_node :: "heap \<Rightarrow> addr \<Rightarrow> addr option option" where
  "next_node h this =
     (case m_right (h this) of
        Some r \<Rightarrow> map_option Some (first h r)
      | None \<Rightarrow> next_loop h this)"

text \<open>
  \<open>RbstNode::offset(d)\<close>. The offset is a \<open>ptrdiff_t\<close>, modelled by an integer. The two
  inner tests fall through to the climb to the parent when they fail, so the climb
  stands in both branches.
\<close>

partial_function (option) offset :: "heap \<Rightarrow> addr \<Rightarrow> int \<Rightarrow> addr option option" where
  "offset h this d =
     (if d > 0 then
        (if d \<le> int (size_ptr h (m_right (h this))) then
           (case m_right (h this) of
              None \<Rightarrow> None
            | Some r \<Rightarrow> offset h r (d - 1 - int (size_ptr h (m_left (h r)))))
         else
           (case m_parent (h this) of
              None \<Rightarrow> Some None
            | Some p \<Rightarrow>
                offset h p (if Some this = m_left (h p)
                            then d - 1 - int (size_ptr h (m_right (h this)))
                            else d + 1 + int (size_ptr h (m_left (h this))))))
      else if d < 0 then
        (if - d \<le> int (size_ptr h (m_left (h this))) then
           (case m_left (h this) of
              None \<Rightarrow> None
            | Some l \<Rightarrow> offset h l (d + 1 + int (size_ptr h (m_right (h l)))))
         else
           (case m_parent (h this) of
              None \<Rightarrow> Some None
            | Some p \<Rightarrow>
                offset h p (if Some this = m_left (h p)
                            then d - 1 - int (size_ptr h (m_right (h this)))
                            else d + 1 + int (size_ptr h (m_left (h this))))))
      else Some (Some this))"

text \<open>
  \<open>RbstNode::index()\<close>: the \<open>for\<close> loop over the ancestors, then the function. On a
  store that satisfies I1 a parent is larger than its child, so the subtraction of sizes
  does not wrap.
\<close>

partial_function (option) index_loop :: "heap \<Rightarrow> addr \<Rightarrow> nat \<Rightarrow> nat option" where
  "index_loop h node index =
     (case m_parent (h node) of
        None \<Rightarrow> Some index
      | Some p \<Rightarrow>
          index_loop h p
            (if Some node = m_right (h p)
             then index + (m_size (h p) - m_size (h node)) else index))"

definition index :: "heap \<Rightarrow> addr \<Rightarrow> nat option" where
  "index h this = index_loop h this (size_ptr h (m_left (h this)))"

text \<open>
  \<open>RbstSetIterator::operator-(other)\<close>: the difference of two positions, each iterator
  being a pointer to a node.
\<close>

definition iterator_minus :: "heap \<Rightarrow> addr \<Rightarrow> addr \<Rightarrow> int option" where
  "iterator_minus h this other =
     (case index h this of
        None \<Rightarrow> None
      | Some i \<Rightarrow> (case index h other of None \<Rightarrow> None | Some j \<Rightarrow> Some (int i - int j)))"

section \<open>Changing the tree\<close>

text \<open>
  The random number generator is a template parameter: a functor that is called with a
  bound and returns a number, changing its own state. It is modelled by a function from
  the state and the bound to the number and the next state.
\<close>

type_synonym 'g rng = "'g \<Rightarrow> nat \<Rightarrow> nat \<times> 'g"

text \<open>
  \<open>RbstNode::split(tree, lesser, greater, compare)\<close>, called on the node \<open>this\<close>. The
  three nodes are passed by reference, so they are addresses; \<open>lesser\<close> and \<open>greater\<close>
  (here \<open>greater'\<close>) may be the same node, and \<open>insert\<close> calls it so.
\<close>

partial_function (option) split ::
  "heap \<Rightarrow> addr \<Rightarrow> addr \<Rightarrow> addr \<Rightarrow> addr \<Rightarrow> (addr \<Rightarrow> addr \<Rightarrow> bool) \<Rightarrow> heap option" where
  "split h this tree lesser greater' compare =
     (if compare this tree then
        (let h1 = h(greater' := (h greater')\<lparr>m_left := Some tree\<rparr>);
             h2 = h1(tree := (h1 tree)\<lparr>m_parent := Some greater'\<rparr>)
         in Option.bind
              (case m_left (h2 tree) of
                 Some l \<Rightarrow> split h2 this l lesser tree compare
               | None \<Rightarrow> Some (h2(lesser := (h2 lesser)\<lparr>m_right := None\<rparr>)))
              (\<lambda>h3. Some (h3(tree := (h3 tree)\<lparr>m_size :=
                  1 + size_ptr h3 (m_left (h3 tree)) + size_ptr h3 (m_right (h3 tree))\<rparr>))))
      else
        (let h1 = h(lesser := (h lesser)\<lparr>m_right := Some tree\<rparr>);
             h2 = h1(tree := (h1 tree)\<lparr>m_parent := Some lesser\<rparr>)
         in Option.bind
              (case m_right (h2 tree) of
                 Some r \<Rightarrow> split h2 this r tree greater' compare
               | None \<Rightarrow> Some (h2(greater' := (h2 greater')\<lparr>m_left := None\<rparr>)))
              (\<lambda>h3. Some (h3(tree := (h3 tree)\<lparr>m_size :=
                  1 + size_ptr h3 (m_left (h3 tree)) + size_ptr h3 (m_right (h3 tree))\<rparr>)))))"

text \<open>
  \<open>RbstNode::insert(node, parent, compare, rng)\<close>, called on the new node \<open>this\<close>. The
  generator is asked only when \<open>node\<close> is not \<open>NULL\<close>. The result is the new store, the
  new state of the generator and the root of the subtree. The branch that inserts the
  new node here stands in \<open>insert_here\<close>; it is the same code for an absent \<open>node\<close> and
  for a draw of 0.
\<close>

definition insert_here ::
  "heap \<Rightarrow> addr \<Rightarrow> addr option \<Rightarrow> addr option \<Rightarrow> (addr \<Rightarrow> addr \<Rightarrow> bool) \<Rightarrow> heap option" where
  "insert_here h this node parent compare =
     Option.bind
       (case node of
          None \<Rightarrow> Some (h(this := (h this)\<lparr>m_left := None, m_right := None, m_size := 1\<rparr>))
        | Some n \<Rightarrow>
            Option.bind (split h this n this this compare)
              (\<lambda>h1.
                 let h2 = h1(this := (h1 this)\<lparr>m_left := m_right (h1 this),
                                                m_right := m_left (h1 this)\<rparr>)
                 in Some (h2(this := (h2 this)\<lparr>m_size :=
                      1 + size_ptr h2 (m_left (h2 this)) + size_ptr h2 (m_right (h2 this))\<rparr>))))
       (\<lambda>h3. Some (h3(this := (h3 this)\<lparr>m_parent := parent\<rparr>)))"

partial_function (option) insert_node ::
  "heap \<Rightarrow> 'g \<Rightarrow> addr \<Rightarrow> addr option \<Rightarrow> addr option \<Rightarrow> (addr \<Rightarrow> addr \<Rightarrow> bool) \<Rightarrow> 'g rng
   \<Rightarrow> (heap \<times> 'g \<times> addr) option" where
  "insert_node h g this node parent compare rng =
     (case node of
        None \<Rightarrow> map_option (\<lambda>h1. (h1, g, this)) (insert_here h this node parent compare)
      | Some n \<Rightarrow>
          (case rng g (1 + m_size (h n)) of (k, g1) \<Rightarrow>
             if k = 0 then
               map_option (\<lambda>h1. (h1, g1, this)) (insert_here h this node parent compare)
             else if compare this n then
               Option.bind (insert_node h g1 this (m_left (h n)) (Some n) compare rng)
                 (\<lambda>(h1, g2, c).
                    let h2 = h1(n := (h1 n)\<lparr>m_left := Some c\<rparr>)
                    in Some (h2(n := (h2 n)\<lparr>m_size := m_size (h2 n) + 1\<rparr>), g2, n))
             else
               Option.bind (insert_node h g1 this (m_right (h n)) (Some n) compare rng)
                 (\<lambda>(h1, g2, c).
                    let h2 = h1(n := (h1 n)\<lparr>m_right := Some c\<rparr>)
                    in Some (h2(n := (h2 n)\<lparr>m_size := m_size (h2 n) + 1\<rparr>), g2, n))))"

text \<open>
  \<open>RbstNode::join(lesser, greater, rng)\<close>. The parent of the joined child is set through
  the child pointer just stored, which must not be \<open>NULL\<close>.
\<close>

partial_function (option) join ::
  "heap \<Rightarrow> 'g \<Rightarrow> addr option \<Rightarrow> addr option \<Rightarrow> 'g rng \<Rightarrow> (heap \<times> 'g \<times> addr option) option" where
  "join h g lesser greater' rng =
     (case lesser of
        None \<Rightarrow> Some (h, g, greater')
      | Some l \<Rightarrow>
          (case greater' of
             None \<Rightarrow> Some (h, g, lesser)
           | Some gr \<Rightarrow>
               (case rng g (m_size (h l) + m_size (h gr)) of (k, g1) \<Rightarrow>
                  if k < m_size (h l) then
                    (let h1 = h(l := (h l)\<lparr>m_size := m_size (h l) + size_ptr h greater'\<rparr>)
                     in Option.bind (join h1 g1 (m_right (h1 l)) greater' rng)
                          (\<lambda>(h2, g2, j).
                             let h3 = h2(l := (h2 l)\<lparr>m_right := j\<rparr>)
                             in (case m_right (h3 l) of
                                   None \<Rightarrow> None
                                 | Some c \<Rightarrow>
                                     Some (h3(c := (h3 c)\<lparr>m_parent := Some l\<rparr>), g2, Some l))))
                  else
                    (let h1 = h(gr := (h gr)\<lparr>m_size := m_size (h gr) + size_ptr h lesser\<rparr>)
                     in Option.bind (join h1 g1 lesser (m_left (h1 gr)) rng)
                          (\<lambda>(h2, g2, j).
                             let h3 = h2(gr := (h2 gr)\<lparr>m_left := j\<rparr>)
                             in (case m_left (h3 gr) of
                                   None \<Rightarrow> None
                                 | Some c \<Rightarrow>
                                     Some (h3(c := (h3 c)\<lparr>m_parent := Some gr\<rparr>), g2, Some gr)))))))"

text \<open>
  \<open>RbstNode::erase(rng)\<close>. The \<open>while\<close> loop that lowers the sizes of the ancestors is
  a function of its own; it returns the store and the last \<open>parent\<close>, the root.
\<close>

partial_function (option) erase_loop :: "heap \<Rightarrow> addr \<Rightarrow> (heap \<times> addr) option" where
  "erase_loop h parent =
     (case m_parent (h parent) of
        None \<Rightarrow> Some (h, parent)
      | Some p \<Rightarrow> erase_loop (h(p := (h p)\<lparr>m_size := m_size (h p) - 1\<rparr>)) p)"

definition erase :: "heap \<Rightarrow> 'g \<Rightarrow> addr \<Rightarrow> 'g rng \<Rightarrow> (heap \<times> 'g \<times> addr option) option" where
  "erase h g this rng =
     (let parent = m_parent (h this) in
      Option.bind (join h g (m_left (h this)) (m_right (h this)) rng)
        (\<lambda>(h1, g1, child).
           let h2 = h1(this := (h1 this)\<lparr>m_parent := None, m_left := None, m_right := None\<rparr>);
               h3 = h2(this := (h2 this)\<lparr>m_size := 1\<rparr>);
               h4 = (case child of
                       Some c \<Rightarrow> h3(c := (h3 c)\<lparr>m_parent := parent\<rparr>)
                     | None \<Rightarrow> h3)
           in (case parent of
                 Some p \<Rightarrow>
                   (let h5 = (if m_left (h4 p) = Some this
                              then h4(p := (h4 p)\<lparr>m_left := child\<rparr>)
                              else h4(p := (h4 p)\<lparr>m_right := child\<rparr>));
                        h6 = h5(p := (h5 p)\<lparr>m_size := m_size (h5 p) - 1\<rparr>)
                    in Option.bind (erase_loop h6 p) (\<lambda>(h7, top). Some (h7, g1, Some top)))
               | None \<Rightarrow> Some (h4, g1, child))))"

section \<open>Valued nodes\<close>

text \<open>
  An \<open>RbstValuedNode<V>\<close> is an \<open>RbstNode\<close> with a value that never changes after
  construction. The functions of \<open>RbstNode\<close> cannot touch it, so the values are kept
  in a map of their own, from the address of a node to its \<open>m_value\<close>.

  \<open>RbstValuedNode::find\<close>, \<open>lower_bound\<close> and \<open>upper_bound\<close>: each is a \<open>while\<close>
  loop that walks down from \<open>node\<close>, with the arguments in the order of the source.
\<close>

partial_function (option) find_node ::
  "heap \<Rightarrow> (addr \<Rightarrow> 'v) \<Rightarrow> addr option \<Rightarrow> 'v \<Rightarrow> ('v \<Rightarrow> 'v \<Rightarrow> bool) \<Rightarrow> addr option
   \<Rightarrow> addr option option" where
  "find_node h val node v lt res =
     (case node of
        None \<Rightarrow> Some res
      | Some n \<Rightarrow>
          if lt v (val n) then find_node h val (m_left (h n)) v lt res
          else if lt (val n) v then find_node h val (m_right (h n)) v lt res
          else Some (Some n))"

partial_function (option) lower_bound ::
  "heap \<Rightarrow> (addr \<Rightarrow> 'v) \<Rightarrow> addr option \<Rightarrow> 'v \<Rightarrow> ('v \<Rightarrow> 'v \<Rightarrow> bool) \<Rightarrow> addr option
   \<Rightarrow> addr option option" where
  "lower_bound h val node v lt res =
     (case node of
        None \<Rightarrow> Some res
      | Some n \<Rightarrow>
          if lt (val n) v then lower_bound h val (m_right (h n)) v lt res
          else lower_bound h val (m_left (h n)) v lt (Some n))"

partial_function (option) upper_bound ::
  "heap \<Rightarrow> (addr \<Rightarrow> 'v) \<Rightarrow> addr option \<Rightarrow> 'v \<Rightarrow> ('v \<Rightarrow> 'v \<Rightarrow> bool) \<Rightarrow> addr option
   \<Rightarrow> addr option option" where
  "upper_bound h val node v lt res =
     (case node of
        None \<Rightarrow> Some res
      | Some n \<Rightarrow>
          if lt v (val n) then upper_bound h val (m_left (h n)) v lt (Some n)
          else upper_bound h val (m_right (h n)) v lt res)"

text \<open>
  The comparator is a template parameter. The source asks of it what the standard
  library asks of a comparison: a strict weak ordering.
\<close>

definition strict_weak_order :: "('v \<Rightarrow> 'v \<Rightarrow> bool) \<Rightarrow> bool" where
  "strict_weak_order lt \<longleftrightarrow>
     (\<forall>x. \<not> lt x x) \<and>
     (\<forall>x y z. lt x y \<longrightarrow> lt y z \<longrightarrow> lt x z) \<and>
     (\<forall>x y z. \<not> lt x y \<longrightarrow> \<not> lt y z \<longrightarrow> \<not> lt x z)"

text \<open>Two values are equal for the comparator when neither is less than the other.\<close>

definition equiv_for :: "('v \<Rightarrow> 'v \<Rightarrow> bool) \<Rightarrow> 'v \<Rightarrow> 'v \<Rightarrow> bool" where
  "equiv_for lt x y \<longleftrightarrow> \<not> lt x y \<and> \<not> lt y x"

text \<open>
  \<open>RbstTree::operator()\<close>: the comparison of two nodes handed to \<open>RbstNode::insert\<close> is
  the comparison of their values.
\<close>

definition node_compare :: "('v \<Rightarrow> 'v \<Rightarrow> bool) \<Rightarrow> (addr \<Rightarrow> 'v) \<Rightarrow> addr \<Rightarrow> addr \<Rightarrow> bool" where
  "node_compare lt val a b = lt (val a) (val b)"

section \<open>The tree holder and the set\<close>

text \<open>
  An \<open>RbstTree\<close> is itself an \<open>RbstNode\<close>, at address \<open>tree\<close>: its \<open>m_left\<close> is the root
  of the values, its size one more than theirs, \<open>m_right\<close> and \<open>m_parent\<close> stay \<open>NULL\<close>.

  \<open>RbstTree::insert(node, rng)\<close>: the tree passes itself as the parent and as the
  comparison of nodes.
\<close>

definition tree_insert ::
  "heap \<Rightarrow> 'g \<Rightarrow> addr \<Rightarrow> addr \<Rightarrow> (addr \<Rightarrow> addr \<Rightarrow> bool) \<Rightarrow> 'g rng \<Rightarrow> (heap \<times> 'g) option" where
  "tree_insert h g tree node compare rng =
     (let h1 = h(tree := (h tree)\<lparr>m_size := m_size (h tree) + 1\<rparr>)
      in Option.bind (insert_node h1 g node (m_left (h1 tree)) (Some tree) compare rng)
           (\<lambda>(h2, g2, c). Some (h2(tree := (h2 tree)\<lparr>m_left := Some c\<rparr>), g2)))"

text \<open>
  The state of an \<open>RbstSet\<close>: the store with its nodes, the value of each node, the
  address of the member \<open>m_tree\<close>, the comparator kept there, the state of the random
  number generator, and the nodes that the node allocator has handed out and not got
  back.
\<close>

record ('v, 'g) rbst_set =
  store :: heap
  node_value :: "addr \<Rightarrow> 'v"
  m_tree :: addr
  m_comp :: "'v \<Rightarrow> 'v \<Rightarrow> bool"
  m_rng :: 'g
  m_node_alloc :: "addr set"

text \<open>The constructor of an empty set, with the member \<open>m_tree\<close> at address \<open>tree\<close>.\<close>

definition set_empty ::
  "heap \<Rightarrow> (addr \<Rightarrow> 'v) \<Rightarrow> addr \<Rightarrow> ('v \<Rightarrow> 'v \<Rightarrow> bool) \<Rightarrow> 'g \<Rightarrow> ('v, 'g) rbst_set" where
  "set_empty h val tree lt g =
     \<lparr>store = h(tree := \<lparr>m_left = None, m_right = None, m_parent = None, m_size = 1\<rparr>),
      node_value = val, m_tree = tree, m_comp = lt, m_rng = g, m_node_alloc = {}\<rparr>"

text \<open>\<open>RbstTree::root()\<close>, \<open>RbstSet::end()\<close>, \<open>RbstSet::size()\<close> and \<open>RbstSet::find(key)\<close>.\<close>

definition root :: "('v, 'g) rbst_set \<Rightarrow> addr option" where
  "root s = m_left (store s (m_tree s))"

definition set_end :: "('v, 'g) rbst_set \<Rightarrow> addr option" where
  "set_end s = Some (m_tree s)"

definition set_size :: "('v, 'g) rbst_set \<Rightarrow> nat" where
  "set_size s = m_size (store s (m_tree s)) - 1"

definition set_find :: "('v, 'g) rbst_set \<Rightarrow> 'v \<Rightarrow> addr option option" where
  "set_find s key = find_node (store s) (node_value s) (root s) key (m_comp s) (Some (m_tree s))"

text \<open>
  \<open>RbstSet::insert(value)\<close>. \<open>new_node\<close> is the address that \<open>m_node_alloc.allocate(1)\<close>
  returns; the allocator is asked only when the value is not found. The result is the
  new state, the position and the flag.
\<close>

definition set_insert ::
  "('v, 'g) rbst_set \<Rightarrow> addr \<Rightarrow> 'v \<Rightarrow> 'g rng \<Rightarrow> (('v, 'g) rbst_set \<times> addr option \<times> bool) option" where
  "set_insert s new_node v rng =
     (case set_find s v of
        None \<Rightarrow> None
      | Some node \<Rightarrow>
          if node \<noteq> Some (m_tree s) then Some (s, node, False)
          else
            (let h1 = (store s)(new_node :=
                        \<lparr>m_left = None, m_right = None, m_parent = None, m_size = 1\<rparr>);
                 val1 = (node_value s)(new_node := v)
             in Option.bind
                  (tree_insert h1 (m_rng s) (m_tree s) new_node (node_compare (m_comp s) val1) rng)
                  (\<lambda>(h2, g2).
                     Some (s\<lparr>store := h2, node_value := val1, m_rng := g2,
                              m_node_alloc := insert new_node (m_node_alloc s)\<rparr>,
                           Some new_node, True))))"

text \<open>
  \<open>RbstSet::erase(iterator pos)\<close>: the node is erased from its tree, destroyed and given
  back to the allocator. \<open>RbstSet::erase(key)\<close> returns the number of erased elements.
\<close>

definition set_erase_at ::
  "('v, 'g) rbst_set \<Rightarrow> addr option \<Rightarrow> 'g rng \<Rightarrow> ('v, 'g) rbst_set option" where
  "set_erase_at s pos rng =
     (case pos of
        None \<Rightarrow> None
      | Some node \<Rightarrow>
          Option.bind (erase (store s) (m_rng s) node rng)
            (\<lambda>(h1, g1, top).
               Some (s\<lparr>store := h1, m_rng := g1, m_node_alloc := m_node_alloc s - {node}\<rparr>)))"

definition set_erase ::
  "('v, 'g) rbst_set \<Rightarrow> 'v \<Rightarrow> 'g rng \<Rightarrow> (('v, 'g) rbst_set \<times> nat) option" where
  "set_erase s key rng =
     (case set_find s key of
        None \<Rightarrow> None
      | Some it \<Rightarrow>
          if it = set_end s then Some (s, 0)
          else Option.bind (set_erase_at s it rng) (\<lambda>s1. Some (s1, 1)))"

text \<open>
  A sequence of operations on a set. An insertion names the address that the allocator
  returns if it is asked.
\<close>

datatype 'v operation = Insert addr 'v | Erase 'v | EraseAt addr

fun run :: "'g rng \<Rightarrow> ('v, 'g) rbst_set \<Rightarrow> 'v operation list \<Rightarrow> ('v, 'g) rbst_set option" where
  "run rng s [] = Some s"
| "run rng s (Insert a v # ops) =
     Option.bind (set_insert s a v rng) (\<lambda>(s1, pos, inserted). run rng s1 ops)"
| "run rng s (Erase v # ops) =
     Option.bind (set_erase s v rng) (\<lambda>(s1, n). run rng s1 ops)"
| "run rng s (EraseAt a # ops) =
     Option.bind (set_erase_at s (Some a) rng) (\<lambda>s1. run rng s1 ops)"

text \<open>
  What the callers owe: the allocator returns storage that is not in use, neither a
  live node nor the set itself, and a position handed to \<open>erase\<close> is a live node.
\<close>

fun admissible :: "'g rng \<Rightarrow> ('v, 'g) rbst_set \<Rightarrow> 'v operation list \<Rightarrow> bool" where
  "admissible rng s [] = True"
| "admissible rng s (Insert a v # ops) =
     (a \<notin> m_node_alloc s \<and> a \<noteq> m_tree s \<and>
      (case set_insert s a v rng of
         None \<Rightarrow> True
       | Some (s1, pos, inserted) \<Rightarrow> admissible rng s1 ops))"
| "admissible rng s (Erase v # ops) =
     (case set_erase s v rng of None \<Rightarrow> True | Some (s1, n) \<Rightarrow> admissible rng s1 ops)"
| "admissible rng s (EraseAt a # ops) =
     (a \<in> m_node_alloc s \<and>
      (case set_erase_at s (Some a) rng of None \<Rightarrow> True | Some s1 \<Rightarrow> admissible rng s1 ops))"

section \<open>Well-formed stores\<close>

text \<open>The nodes reachable from a pointer through child links.\<close>

inductive reach :: "heap \<Rightarrow> addr option \<Rightarrow> addr \<Rightarrow> bool" for h :: heap where
  reach_here: "reach h (Some a) a"
| reach_left: "reach h (m_left (h a)) x \<Longrightarrow> reach h (Some a) x"
| reach_right: "reach h (m_right (h a)) x \<Longrightarrow> reach h (Some a) x"

text \<open>I1: the size of a node is one more than the sizes of its two subtrees.\<close>

definition I1 :: "heap \<Rightarrow> addr \<Rightarrow> bool" where
  "I1 h a \<longleftrightarrow> m_size (h a) = 1 + size_ptr h (m_left (h a)) + size_ptr h (m_right (h a))"

text \<open>I2: each child points back to the node that holds it.\<close>

definition I2 :: "heap \<Rightarrow> addr \<Rightarrow> bool" where
  "I2 h a \<longleftrightarrow>
     (case m_left (h a) of None \<Rightarrow> True | Some c \<Rightarrow> m_parent (h c) = Some a) \<and>
     (case m_right (h a) of None \<Rightarrow> True | Some c \<Rightarrow> m_parent (h c) = Some a)"

text \<open>
  I3: under the comparison \<open>cmp\<close> of nodes, no node below the left child is greater than
  the node and no node below the right child is less.
\<close>

definition I3 :: "heap \<Rightarrow> (addr \<Rightarrow> addr \<Rightarrow> bool) \<Rightarrow> addr \<Rightarrow> bool" where
  "I3 h cmp a \<longleftrightarrow>
     (\<forall>x. reach h (m_left (h a)) x \<longrightarrow> \<not> cmp a x) \<and>
     (\<forall>y. reach h (m_right (h a)) y \<longrightarrow> \<not> cmp y a)"

text \<open>
  A store holds the tree \<open>t\<close> of addresses at pointer \<open>p\<close> below parent \<open>par\<close>: the
  links and sizes of every node are those of \<open>t\<close>, and no address occurs twice. This is
  what \<open>rbst_check_structure\<close> tests, together with the absence of sharing.
\<close>

fun is_tree :: "heap \<Rightarrow> addr option \<Rightarrow> addr option \<Rightarrow> addr tree \<Rightarrow> bool" where
  "is_tree h p par Leaf = (p = None)"
| "is_tree h p par (Node l a r) =
     (p = Some a \<and> m_parent (h a) = par \<and> m_size (h a) = 1 + size l + size r \<and>
      is_tree h (m_left (h a)) (Some a) l \<and> is_tree h (m_right (h a)) (Some a) r \<and>
      a \<notin> set_tree l \<and> a \<notin> set_tree r \<and> set_tree l \<inter> set_tree r = {})"

text \<open>
  I3 on a tree of addresses, for a comparison \<open>cmp\<close> of nodes: no node of the left
  subtree is greater than the root, no node of the right subtree is less, and so in
  every subtree.
\<close>

fun ordered :: "(addr \<Rightarrow> addr \<Rightarrow> bool) \<Rightarrow> addr tree \<Rightarrow> bool" where
  "ordered cmp Leaf = True"
| "ordered cmp (Node l a r) =
     (ordered cmp l \<and> ordered cmp r \<and>
      (\<forall>x \<in> set_tree l. \<not> cmp a x) \<and> (\<forall>y \<in> set_tree r. \<not> cmp y a))"

text \<open>The pointer to a tree of addresses: its root, \<open>NULL\<close> for the empty tree.\<close>

fun root_ptr :: "addr tree \<Rightarrow> addr option" where
  "root_ptr Leaf = None"
| "root_ptr (Node l a r) = Some a"

text \<open>The parent pointer stored in the root of a tree of addresses.\<close>

definition root_parent :: "heap \<Rightarrow> addr tree \<Rightarrow> addr option" where
  "root_parent h t = (case t of Leaf \<Rightarrow> None | Node l a r \<Rightarrow> m_parent (h a))"

section \<open>The operations as the specification describes them\<close>

text \<open>
  Split: the nodes of the tree that are not greater than the pivot \<open>x\<close> go to the first
  tree, the nodes greater than the pivot to the second, by a descent that compares the
  current node with the pivot.
\<close>

fun spec_split :: "(addr \<Rightarrow> addr \<Rightarrow> bool) \<Rightarrow> addr \<Rightarrow> addr tree \<Rightarrow> addr tree \<times> addr tree" where
  "spec_split cmp x Leaf = (Leaf, Leaf)"
| "spec_split cmp x (Node l a r) =
     (if cmp x a
      then (case spec_split cmp x l of (lo, hi) \<Rightarrow> (lo, Node hi a r))
      else (case spec_split cmp x r of (lo, hi) \<Rightarrow> (Node l a lo, hi)))"

text \<open>
  Insert: at each visited node draw a number below the size of its subtree plus one; on 0
  split the subtree by the new node and make the halves its children, otherwise go on in
  the child that the comparison selects. In an absent subtree the new node stands alone.
\<close>

fun spec_insert ::
  "(addr \<Rightarrow> addr \<Rightarrow> bool) \<Rightarrow> 'g rng \<Rightarrow> 'g \<Rightarrow> addr \<Rightarrow> addr tree \<Rightarrow> addr tree \<times> 'g" where
  "spec_insert cmp rng g x Leaf = (Node Leaf x Leaf, g)"
| "spec_insert cmp rng g x (Node l a r) =
     (case rng g (size (Node l a r) + 1) of (k, g1) \<Rightarrow>
        if k = 0 then (case spec_split cmp x (Node l a r) of (lo, hi) \<Rightarrow> (Node lo x hi, g1))
        else if cmp x a
        then (case spec_insert cmp rng g1 x l of (l', g2) \<Rightarrow> (Node l' a r, g2))
        else (case spec_insert cmp rng g1 x r of (r', g2) \<Rightarrow> (Node l a r', g2)))"

text \<open>
  Join: an absent tree leaves the other unchanged. Otherwise draw a number below the sum
  of the sizes; if it is below the size of \<open>lesser\<close>, the root of \<open>lesser\<close> is the root
  and \<open>greater\<close> is joined into its right child, otherwise the root of \<open>greater\<close> is the
  root and \<open>lesser\<close> is joined into its left child.
\<close>

fun spec_join :: "'g rng \<Rightarrow> 'g \<Rightarrow> addr tree \<Rightarrow> addr tree \<Rightarrow> addr tree \<times> 'g" where
  "spec_join rng g Leaf t = (t, g)"
| "spec_join rng g (Node l a r) Leaf = (Node l a r, g)"
| "spec_join rng g (Node l1 a r1) (Node l2 b r2) =
     (case rng g (size (Node l1 a r1) + size (Node l2 b r2)) of (k, g1) \<Rightarrow>
        if k < size (Node l1 a r1)
        then (case spec_join rng g1 r1 (Node l2 b r2) of (j, g2) \<Rightarrow> (Node l1 a j, g2))
        else (case spec_join rng g1 (Node l1 a r1) l2 of (j, g2) \<Rightarrow> (Node j b r2, g2)))"

text \<open>
  Erase: the node is replaced by the join of its two children; the rest of the tree
  keeps its shape.
\<close>

fun spec_erase :: "'g rng \<Rightarrow> 'g \<Rightarrow> addr \<Rightarrow> addr tree \<Rightarrow> addr tree \<times> 'g" where
  "spec_erase rng g a Leaf = (Leaf, g)"
| "spec_erase rng g a (Node l x r) =
     (if x = a then spec_join rng g l r
      else if a \<in> set_tree l
      then (case spec_erase rng g a l of (l', g') \<Rightarrow> (Node l' x r, g'))
      else (case spec_erase rng g a r of (r', g') \<Rightarrow> (Node l x r', g')))"

text \<open>The nodes on the path from the root of a tree down to the parent of \<open>a\<close>.\<close>

fun ancestors :: "addr tree \<Rightarrow> addr \<Rightarrow> addr set" where
  "ancestors Leaf a = {}"
| "ancestors (Node l x r) a =
     (if x = a then {}
      else if a \<in> set_tree l then insert x (ancestors l a)
      else if a \<in> set_tree r then insert x (ancestors r a)
      else {})"

text \<open>
  Two stretches of \<open>erase\<close>, named for the proofs: the node is cut off and the joined
  child gets the parent of the node; then the child slot of the parent is replaced and
  the size of the parent lowered.
\<close>

definition erase_unlink :: "heap \<Rightarrow> addr \<Rightarrow> addr option \<Rightarrow> addr option \<Rightarrow> heap" where
  "erase_unlink h1 this parent child =
     (let h2 = h1(this := (h1 this)\<lparr>m_parent := None, m_left := None, m_right := None\<rparr>);
          h3 = h2(this := (h2 this)\<lparr>m_size := 1\<rparr>)
      in (case child of
            Some c \<Rightarrow> h3(c := (h3 c)\<lparr>m_parent := parent\<rparr>)
          | None \<Rightarrow> h3))"

definition erase_replace :: "heap \<Rightarrow> addr \<Rightarrow> addr \<Rightarrow> addr option \<Rightarrow> heap" where
  "erase_replace h4 this p child =
     (let h5 = (if m_left (h4 p) = Some this
                then h4(p := (h4 p)\<lparr>m_left := child\<rparr>)
                else h4(p := (h4 p)\<lparr>m_right := child\<rparr>))
      in h5(p := (h5 p)\<lparr>m_size := m_size (h5 p) - 1\<rparr>))"

text \<open>
  The set \<open>s\<close> holds the tree \<open>t\<close> of values: the holder has \<open>t\<close> as its left subtree and
  nothing else, \<open>t\<close> is ordered by the comparator, no two of its values are equal for
  the comparator, and its nodes are the nodes that the allocator has handed out.
\<close>

definition set_holds :: "('v, 'g) rbst_set \<Rightarrow> addr tree \<Rightarrow> bool" where
  "set_holds s t \<longleftrightarrow>
     is_tree (store s) (Some (m_tree s)) None (Node t (m_tree s) Leaf) \<and>
     ordered (node_compare (m_comp s) (node_value s)) t \<and>
     (\<forall>a \<in> set_tree t. \<forall>b \<in> set_tree t.
        equiv_for (m_comp s) (node_value s a) (node_value s b) \<longrightarrow> a = b) \<and>
     m_node_alloc s = set_tree t"

text \<open>The first node in sorted order that satisfies \<open>P\<close>, or the fallback \<open>res\<close>.\<close>

definition leftmost :: "(addr \<Rightarrow> bool) \<Rightarrow> addr tree \<Rightarrow> addr option \<Rightarrow> addr option" where
  "leftmost P t res = (case List.find P (inorder t) of None \<Rightarrow> res | Some a \<Rightarrow> Some a)"

text \<open>The rank of a node: its 0-based position in the sorted order of the tree.\<close>

fun position :: "addr list \<Rightarrow> addr \<Rightarrow> nat" where
  "position [] a = 0"
| "position (x # xs) a = (if x = a then 0 else Suc (position xs a))"

definition rank :: "addr tree \<Rightarrow> addr \<Rightarrow> nat" where
  "rank t a = position (inorder t) a"

text \<open>
  What a call of \<open>offset\<close> does once the target lies outside the subtree of \<open>b\<close>, which
  has \<open>n\<close> nodes and hangs below \<open>par\<close>: it returns \<open>NULL\<close> at the root and goes on from
  the parent otherwise. \<open>T\<close> is the target counted from the first node of the subtree.
\<close>

definition offset_exit :: "heap \<Rightarrow> addr \<Rightarrow> addr option \<Rightarrow> nat \<Rightarrow> int \<Rightarrow> addr option option" where
  "offset_exit h b par n T =
     (case par of
        None \<Rightarrow> Some None
      | Some p \<Rightarrow> offset h p (if Some b = m_left (h p) then T - int n else T + 1))"

text \<open>
  \<open>DefaultRng\<close>: the linear congruential generator with a 32-bit state and the
  parameters of the source. The bound is a subtree size plus one, or a sum of two
  sizes of present subtrees, so it is not 0.
\<close>

definition lcg :: "32 word rng" where
  "lcg state bound =
     (let state' = 1664525 * state + 1013904223 in (unat state' mod bound, state'))"

text \<open>
  A set with three elements: the holder at address 0 above the three nodes of the store
  below, with the values 10, 20 and 30.
\<close>

definition store4 :: heap where
  "store4 =
     (\<lambda>_. \<lparr>m_left = None, m_right = None, m_parent = None, m_size = 1\<rparr>)
     (0 := \<lparr>m_left = Some 2, m_right = None, m_parent = None, m_size = 4\<rparr>,
      2 := \<lparr>m_left = Some 1, m_right = Some 3, m_parent = Some 0, m_size = 3\<rparr>,
      1 := \<lparr>m_left = None, m_right = None, m_parent = Some 2, m_size = 1\<rparr>,
      3 := \<lparr>m_left = None, m_right = None, m_parent = Some 2, m_size = 1\<rparr>)"

definition set3 :: "(int, 32 word) rbst_set" where
  "set3 = \<lparr>store = store4, node_value = (\<lambda>a. 10 * int a), m_tree = 0, m_comp = (<),
            m_rng = 1, m_node_alloc = {1, 2, 3}\<rparr>"

text \<open>Values for the three nodes of the store below.\<close>

definition val3 :: "addr \<Rightarrow> int" where
  "val3 a = 10 * int a"

text \<open>A store with three nodes: node 2 at the root, nodes 1 and 3 below it.\<close>

definition store3 :: heap where
  "store3 =
     (\<lambda>_. \<lparr>m_left = None, m_right = None, m_parent = None, m_size = 1\<rparr>)
     (2 := \<lparr>m_left = Some 1, m_right = Some 3, m_parent = None, m_size = 3\<rparr>,
      1 := \<lparr>m_left = None, m_right = None, m_parent = Some 2, m_size = 1\<rparr>,
      3 := \<lparr>m_left = None, m_right = None, m_parent = Some 2, m_size = 1\<rparr>)"

definition tree3 :: "addr tree" where
  "tree3 = Node (Node Leaf 1 Leaf) 2 (Node Leaf 3 Leaf)"

section \<open>Properties of the descent by rank\<close>

lemma reach_None: "\<not> reach h None x"
  by (auto elim: reach.cases)

lemma at_descends:
  assumes "\<forall>x. reach h (Some a) x \<longrightarrow> I1 h x" and "i < m_size (h a)"
  shows "\<exists>b. at h a i = Some b \<and> reach h (Some a) b"
  using assms
proof (induction "m_size (h a)" arbitrary: a i rule: less_induct)
  case less
  let ?n = "size_ptr h (m_left (h a))"
  have here: "I1 h a" using less.prems(1) by (simp add: reach_here)
  show ?case
  proof (cases "i < ?n")
    case True
    then obtain l where l: "m_left (h a) = Some l"
      by (cases "m_left (h a)") (auto simp: size_ptr_def)
    have small: "m_size (h l) < m_size (h a)"
      using here l by (simp add: I1_def size_ptr_def)
    have sub: "\<forall>x. reach h (Some l) x \<longrightarrow> I1 h x"
      using less.prems(1) l by (metis reach_left)
    from less.hyps[OF small sub] True l
    obtain b where b: "at h l i = Some b" "reach h (Some l) b"
      by (auto simp: size_ptr_def)
    have "at h a i = Some b"
      using True l b(1) by (subst at.simps) simp
    moreover have "reach h (Some a) b"
      using b(2) l by (metis reach_left)
    ultimately show ?thesis by blast
  next
    case False
    show ?thesis
    proof (cases "i > ?n")
      case True
      have "size_ptr h (m_right (h a)) > i - ?n - 1"
        using here True less.prems(2) by (simp add: I1_def)
      then obtain r where r: "m_right (h a) = Some r" and ir: "i - ?n - 1 < m_size (h r)"
        by (cases "m_right (h a)") (auto simp: size_ptr_def)
      have small: "m_size (h r) < m_size (h a)"
        using here r by (simp add: I1_def size_ptr_def)
      have sub: "\<forall>x. reach h (Some r) x \<longrightarrow> I1 h x"
        using less.prems(1) r by (metis reach_right)
      from less.hyps[OF small sub ir]
      obtain b where b: "at h r (i - ?n - 1) = Some b" "reach h (Some r) b"
        by auto
      have "at h a i = Some b"
        using True False r b(1) by (subst at.simps) simp
      moreover have "reach h (Some a) b"
        using b(2) r by (metis reach_right)
      ultimately show ?thesis by blast
    next
      case F2: False
      have "at h a i = Some a"
        using False F2 by (subst at.simps) simp
      then show ?thesis by (auto intro: reach_here)
    qed
  qed
qed


text \<open>
  C10: when I1 holds in the subtree of a node and \<open>i\<close> is below the node's size, the
  descent of \<open>at(i)\<close> steps only into a child that is present: for \<open>i\<close> below the left
  size the left child exists, for \<open>i\<close> above it the right child exists and the index
  passed on is a rank of the right subtree. The call returns a node of the subtree.
\<close>

theorem at_steps_into_present_child:
  assumes "\<forall>x. reach h (Some a) x \<longrightarrow> I1 h x" and "i < m_size (h a)"
  shows "(i < size_ptr h (m_left (h a)) \<longrightarrow>
            (\<exists>l. m_left (h a) = Some l \<and> i < m_size (h l))) \<and>
         (i > size_ptr h (m_left (h a)) \<longrightarrow>
            (\<exists>r. m_right (h a) = Some r \<and>
                 i - size_ptr h (m_left (h a)) - 1 < m_size (h r))) \<and>
         (\<exists>b. at h a i = Some b \<and> reach h (Some a) b)"
proof (intro conjI impI)
  assume "i < size_ptr h (m_left (h a))"
  then show "\<exists>l. m_left (h a) = Some l \<and> i < m_size (h l)"
    by (cases "m_left (h a)") (auto simp: size_ptr_def)
next
  assume gt: "i > size_ptr h (m_left (h a))"
  have "I1 h a" using assms(1) by (simp add: reach_here)
  then have "i - size_ptr h (m_left (h a)) - 1 < size_ptr h (m_right (h a))"
    using gt assms(2) by (simp add: I1_def)
  then show "\<exists>r. m_right (h a) = Some r \<and>
                 i - size_ptr h (m_left (h a)) - 1 < m_size (h r)"
    by (cases "m_right (h a)") (auto simp: size_ptr_def)
next
  show "\<exists>b. at h a i = Some b \<and> reach h (Some a) b"
    using at_descends[OF assms] .
qed

lemma store3_I1: "I1 store3 x"
  by (simp add: I1_def store3_def size_ptr_def)

theorem at_steps_into_present_child_witness:
  "2 < m_size (store3 2) \<and>
   (\<exists>r. m_right (store3 2) = Some r \<and>
        2 - size_ptr store3 (m_left (store3 2)) - 1 < m_size (store3 r)) \<and>
   (\<exists>b. at store3 2 2 = Some b \<and> reach store3 (Some 2) b)"
proof -
  have h1: "\<forall>x. reach store3 (Some 2) x \<longrightarrow> I1 store3 x"
    by (simp add: store3_I1)
  have h2: "2 < m_size (store3 2)"
    by (simp add: store3_def)
  have gt: "2 > size_ptr store3 (m_left (store3 2))"
    by (simp add: store3_def size_ptr_def)
  show ?thesis
    using at_steps_into_present_child[OF h1 h2] h2 gt by blast
qed

section \<open>Rank and position\<close>

lemma is_tree_size: "is_tree h p par t \<Longrightarrow> size_ptr h p = size t"
  by (cases t) (auto simp: size_ptr_def)

lemma is_tree_None: "is_tree h None par t \<longleftrightarrow> t = Leaf"
  by (cases t) auto

lemma is_tree_Some: "is_tree h (Some a) par t \<Longrightarrow> \<exists>l r. t = Node l a r"
  by (cases t) auto

lemma is_tree_distinct: "is_tree h p par t \<Longrightarrow> distinct (inorder t)"
  by (induction t arbitrary: p par) auto

lemma inorder_nth_left: "i < size l \<Longrightarrow> inorder (Node l a r) ! i = inorder l ! i"
  by (simp add: nth_append)

lemma inorder_nth_mid: "inorder (Node l a r) ! size l = a"
  by (simp add: nth_append)

lemma inorder_nth_right: "size l < i \<Longrightarrow> inorder (Node l a r) ! i = inorder r ! (i - size l - 1)"
  by (auto simp add: nth_append nth_Cons')

lemma at_is_tree:
  "is_tree h (Some a) par t \<Longrightarrow> i < size t \<Longrightarrow> at h a i = Some (inorder t ! i)"
proof (induction t arbitrary: a par i)
  case Leaf
  then show ?case by simp
next
  case (Node l x r)
  from Node.prems have x: "a = x" by simp
  have szl: "size_ptr h (m_left (h x)) = size l"
    using Node.prems is_tree_size by auto
  consider (L) "i < size l" | (M) "i = size l" | (R) "size l < i" by linarith
  then show ?case
  proof cases
    case L
    then obtain lr where lr: "m_left (h x) = Some lr"
      using szl by (cases "m_left (h x)") (auto simp: size_ptr_def)
    have "at h lr i = Some (inorder l ! i)"
      using Node.IH(1)[of lr "Some x" i] Node.prems lr L by simp
    then show ?thesis
      unfolding x using L lr szl by (subst at.simps) (simp add: nth_append)
  next
    case M
    then show ?thesis
      unfolding x using szl by (subst at.simps) (simp add: nth_append)
  next
    case R
    have "size_ptr h (m_right (h x)) = size r"
      using Node.prems is_tree_size by auto
    moreover have ir: "i - size l - 1 < size r" using R Node.prems(2) by simp
    ultimately obtain rr where rr: "m_right (h x) = Some rr"
      by (cases "m_right (h x)") (auto simp: size_ptr_def)
    have "at h rr (i - size l - 1) = Some (inorder r ! (i - size l - 1))"
      using Node.IH(2)[of rr "Some x" "i - size l - 1"] Node.prems rr ir by simp
    then show ?thesis
      unfolding x using R rr szl by (subst at.simps) (auto simp add: nth_append nth_Cons')
  qed
qed


lemma is_tree_root:
  "is_tree h (Some a) par t \<Longrightarrow> m_parent (h a) = par \<and> m_size (h a) = size t \<and> a \<in> set_tree t"
  by (cases t) auto

lemma is_tree_ptr_in: "is_tree h p par t \<Longrightarrow> p = Some a \<Longrightarrow> a \<in> set_tree t"
  by (cases t) auto

lemma is_tree_children_ne:
  assumes "is_tree h (Some x) par (Node l x r)"
  shows "m_left (h x) = Some c \<Longrightarrow> m_right (h x) \<noteq> Some c"
proof
  assume c: "m_left (h x) = Some c" "m_right (h x) = Some c"
  have "c \<in> set_tree l" "c \<in> set_tree r"
    using assms c is_tree_ptr_in[of h "Some c" "Some x"] by auto
  then show False using assms by auto
qed

lemma index_loop_is_tree:
  "is_tree h (Some b) par s \<Longrightarrow> i < size s \<Longrightarrow>
   index_loop h (inorder s ! i) (k + size_ptr h (m_left (h (inorder s ! i)))) =
   index_loop h b (k + i)"
proof (induction s arbitrary: b par i k)
  case Leaf
  then show ?case by simp
next
  case (Node l x r)
  from Node.prems have b: "b = x" by simp
  have T: "is_tree h (Some x) par (Node l x r)" using Node.prems b by simp
  have szl: "size_ptr h (m_left (h x)) = size l"
    using Node.prems is_tree_size by auto
  have szr: "size_ptr h (m_right (h x)) = size r"
    using Node.prems is_tree_size by auto
  consider (L) "i < size l" | (M) "i = size l" | (R) "size l < i" by linarith
  then show ?case
  proof cases
    case L
    then obtain lr where lr: "m_left (h x) = Some lr"
      using szl by (cases "m_left (h x)") (auto simp: size_ptr_def)
    have tl: "is_tree h (Some lr) (Some x) l" using Node.prems lr by simp
    have nth: "inorder (Node l x r) ! i = inorder l ! i" using L by (simp add: nth_append)
    have "index_loop h (inorder l ! i) (k + size_ptr h (m_left (h (inorder l ! i)))) =
          index_loop h lr (k + i)"
      using Node.IH(1)[OF tl L] .
    also have "\<dots> = index_loop h x (k + i)"
      using is_tree_root[OF tl] is_tree_children_ne[OF T lr]
      by (subst index_loop.simps) auto
    finally show ?thesis unfolding b nth .
  next
    case M
    then show ?thesis unfolding b using szl by (simp add: nth_append)
  next
    case R
    have ir: "i - size l - 1 < size r" using R Node.prems(2) by simp
    then obtain rr where rr: "m_right (h x) = Some rr"
      using szr by (cases "m_right (h x)") (auto simp: size_ptr_def)
    have tr: "is_tree h (Some rr) (Some x) r" using Node.prems rr by simp
    have nth: "inorder (Node l x r) ! i = inorder r ! (i - size l - 1)"
      using R by (auto simp add: nth_append nth_Cons')
    have "index_loop h (inorder r ! (i - size l - 1))
            (k + size_ptr h (m_left (h (inorder r ! (i - size l - 1))))) =
          index_loop h rr (k + (i - size l - 1))"
      using Node.IH(2)[OF tr ir] .
    also have "\<dots> = index_loop h x (k + i)"
    proof -
      have "m_size (h x) - m_size (h rr) = 1 + size l"
        using is_tree_root[OF tr] is_tree_root[OF T] by simp
      then have e: "k + (i - size l - 1) + (m_size (h x) - m_size (h rr)) = k + i"
        using R by simp
      have "index_loop h rr (k + (i - size l - 1)) =
            index_loop h x (k + (i - size l - 1) + (m_size (h x) - m_size (h rr)))"
        using is_tree_root[OF tr] rr by (subst index_loop.simps) simp
      then show ?thesis unfolding e .
    qed
    finally show ?thesis unfolding b nth .
  qed
qed

lemma index_is_tree:
  assumes "is_tree h (Some r) None t" "i < size t"
  shows "index h (inorder t ! i) = Some i"
proof -
  have "index h (inorder t ! i) = index_loop h r i"
    using index_loop_is_tree[OF assms, of 0] by (simp add: index_def)
  also have "\<dots> = Some i"
    using is_tree_root[OF assms(1)] by (subst index_loop.simps) simp
  finally show ?thesis .
qed


lemma position_nth: "distinct xs \<Longrightarrow> i < length xs \<Longrightarrow> position xs (xs ! i) = i"
proof (induction xs arbitrary: i)
  case Nil
  then show ?case by simp
next
  case (Cons x xs)
  then show ?case by (cases i) auto
qed

lemma nth_position: "a \<in> set xs \<Longrightarrow> position xs a < length xs \<and> xs ! position xs a = a"
  by (induction xs) auto

lemma rank_less: "a \<in> set_tree t \<Longrightarrow> rank t a < size t \<and> inorder t ! rank t a = a"
  using nth_position[of a "inorder t"] by (simp add: rank_def)

lemma rank_nth: "is_tree h p par t \<Longrightarrow> i < size t \<Longrightarrow> rank t (inorder t ! i) = i"
  using position_nth[of "inorder t" i] is_tree_distinct[of h p par t] by (simp add: rank_def)

lemma index_rank:
  assumes "is_tree h (Some r) None t" "a \<in> set_tree t"
  shows "index h a = Some (rank t a)"
  using index_is_tree[OF assms(1), of "rank t a"] rank_less[OF assms(2)] by simp

text \<open>
  C6: in a well-formed tree whose root has no parent, the node returned by \<open>at(i)\<close> for
  a rank \<open>i\<close> below the size has index \<open>i\<close>; \<open>at\<close> of the index of a node of the tree is
  that node; and the difference of two positions is the difference of their ranks.
\<close>

theorem rank_consistency:
  assumes "is_tree h (Some r) None t"
  shows "(\<forall>i < size t. \<exists>a. at h r i = Some a \<and> a \<in> set_tree t \<and> index h a = Some i) \<and>
         (\<forall>a\<in>set_tree t. \<exists>i < size t. index h a = Some i \<and> at h r i = Some a) \<and>
         (\<forall>p\<in>set_tree t. \<forall>q\<in>set_tree t.
            index h p = Some (rank t p) \<and> index h q = Some (rank t q) \<and>
            iterator_minus h p q = Some (int (rank t p) - int (rank t q)))"
proof (intro conjI allI ballI impI)
  fix i assume i: "i < size t"
  have "inorder t ! i \<in> set (inorder t)" using i by (intro nth_mem) simp
  then show "\<exists>a. at h r i = Some a \<and> a \<in> set_tree t \<and> index h a = Some i"
    using at_is_tree[OF assms i] index_is_tree[OF assms i] by simp
next
  fix a assume a: "a \<in> set_tree t"
  have "at h r (rank t a) = Some a"
    using at_is_tree[OF assms, of "rank t a"] rank_less[OF a] by simp
  then show "\<exists>i < size t. index h a = Some i \<and> at h r i = Some a"
    using index_rank[OF assms a] rank_less[OF a] by blast
next
  fix p q assume "p \<in> set_tree t" "q \<in> set_tree t"
  then show "index h p = Some (rank t p)" "index h q = Some (rank t q)"
    "iterator_minus h p q = Some (int (rank t p) - int (rank t q))"
    using index_rank[OF assms] by (simp_all add: iterator_minus_def)
qed

lemma store3_is_tree: "is_tree store3 (Some 2) None tree3"
  by (simp add: store3_def tree3_def)

theorem rank_consistency_witness:
  "is_tree store3 (Some 2) None tree3 \<and>
   (\<exists>a. at store3 2 2 = Some a \<and> a \<in> set_tree tree3 \<and> index store3 a = Some 2) \<and>
   (\<exists>i < size tree3. index store3 3 = Some i \<and> at store3 2 i = Some 3) \<and>
   iterator_minus store3 3 1 = Some (int (rank tree3 3) - int (rank tree3 1))"
proof -
  have i: "2 < size tree3" and a: "3 \<in> set_tree tree3" "1 \<in> set_tree tree3"
    by (simp_all add: tree3_def)
  show ?thesis
    using rank_consistency[OF store3_is_tree] store3_is_tree i a by blast
qed

section \<open>Moving by an offset\<close>

lemma is_tree_left_ptr:
  assumes "is_tree h (Some x) par (Node l x r)" "0 < size l"
  shows "\<exists>c. m_left (h x) = Some c \<and> is_tree h (Some c) (Some x) l"
proof -
  have "size_ptr h (m_left (h x)) = size l" using assms is_tree_size by auto
  then obtain c where "m_left (h x) = Some c"
    using assms(2) by (cases "m_left (h x)") (auto simp: size_ptr_def)
  then show ?thesis using assms by auto
qed

lemma is_tree_right_ptr:
  assumes "is_tree h (Some x) par (Node l x r)" "0 < size r"
  shows "\<exists>c. m_right (h x) = Some c \<and> is_tree h (Some c) (Some x) r"
proof -
  have "size_ptr h (m_right (h x)) = size r" using assms is_tree_size by auto
  then obtain c where "m_right (h x) = Some c"
    using assms(2) by (cases "m_right (h x)") (auto simp: size_ptr_def)
  then show ?thesis using assms by auto
qed

lemma nth_inorder_left: "i < size l \<Longrightarrow> inorder (Node l x r) ! i = inorder l ! i"
  by (simp add: nth_append)

lemma nth_inorder_root: "inorder (Node l x r) ! size l = x"
  by (simp add: nth_append)

lemma nth_inorder_right: "inorder (Node l x r) ! (size l + 1 + j) = inorder r ! j"
  by (simp add: nth_append)

text \<open>offset: the descent inside a subtree\<close>

lemma offset_down:
  "is_tree h (Some b) par s \<Longrightarrow> 0 \<le> int (size (left s)) + d \<Longrightarrow>
   int (size (left s)) + d < int (size s) \<Longrightarrow>
   offset h b d = Some (Some (inorder s ! nat (int (size (left s)) + d)))"
proof (induction s arbitrary: b par d)
  case Leaf
  then show ?case by simp
next
  case (Node l x r)
  from Node.prems have b: "b = x" by simp
  have T: "is_tree h (Some x) par (Node l x r)" using Node.prems b by simp
  have szl: "size_ptr h (m_left (h x)) = size l" and szr: "size_ptr h (m_right (h x)) = size r"
    using T is_tree_size by auto
  consider (Z) "d = 0" | (P) "d > 0" | (N) "d < 0" by linarith
  then show ?case
  proof cases
    case Z
    then show ?thesis unfolding b by (subst offset.simps) (simp add: nth_append)
  next
    case P
    have dr: "d \<le> int (size r)" using Node.prems(3) by simp
    then have "0 < size r" using P by linarith
    from is_tree_right_ptr[OF T this] obtain c where
      c: "m_right (h x) = Some c" "is_tree h (Some c) (Some x) r" by blast
    have szcl: "size_ptr h (m_left (h c)) = size (left r)"
      using c(2) is_tree_size[of h "m_left (h c)"] by (cases r) auto
    let ?d = "d - 1 - int (size (left r))"
    have e: "int (size (left r)) + ?d = d - 1" by simp
    have "offset h c ?d = Some (Some (inorder r ! nat (int (size (left r)) + ?d)))"
      using Node.IH(2)[OF c(2), of ?d] P dr unfolding e by simp
    then have "offset h c ?d = Some (Some (inorder r ! nat (d - 1)))" unfolding e .
    moreover have "inorder (Node l x r) ! nat (int (size l) + d) = inorder r ! nat (d - 1)"
    proof -
      have "nat (int (size l) + d) = size l + 1 + nat (d - 1)" using P by linarith
      then show ?thesis using nth_inorder_right[of l x r "nat (d - 1)"] by simp
    qed
    ultimately show ?thesis
      unfolding b using P dr c(1) szr szcl by (subst offset.simps) simp
  next
    case N
    have dl: "- d \<le> int (size l)" using Node.prems(2) by simp
    then have "0 < size l" using N by linarith
    from is_tree_left_ptr[OF T this] obtain c where
      c: "m_left (h x) = Some c" "is_tree h (Some c) (Some x) l" by blast
    have szcr: "size_ptr h (m_right (h c)) = size (right l)"
      using c(2) is_tree_size[of h "m_right (h c)"] by (cases l) auto
    let ?d = "d + 1 + int (size (right l))"
    have e: "int (size (left l)) + ?d = int (size l) + d"
      using \<open>0 < size l\<close> by (cases l) auto
    have "offset h c ?d = Some (Some (inorder l ! nat (int (size (left l)) + ?d)))"
      using Node.IH(1)[OF c(2), of ?d] N dl unfolding e by simp
    then have "offset h c ?d = Some (Some (inorder l ! nat (int (size l) + d)))" unfolding e .
    moreover have "inorder (Node l x r) ! nat (int (size l) + d) = inorder l ! nat (int (size l) + d)"
      using N dl by (intro nth_inorder_left) linarith
    ultimately show ?thesis
      unfolding b using N dl c(1) szl szcr by (subst offset.simps) simp
  qed
qed


lemma offset_root:
  assumes T: "is_tree h (Some x) par (Node l x r)"
  shows "offset h x d =
     (if 0 \<le> int (size l) + d \<and> int (size l) + d < int (size (Node l x r))
      then Some (Some (inorder (Node l x r) ! nat (int (size l) + d)))
      else offset_exit h x par (size (Node l x r)) (int (size l) + d))"
proof (cases "0 \<le> int (size l) + d \<and> int (size l) + d < int (size (Node l x r))")
  case True
  then show ?thesis using offset_down[OF T, of d] by simp
next
  case False
  have szl: "size_ptr h (m_left (h x)) = size l" and szr: "size_ptr h (m_right (h x)) = size r"
    using T is_tree_size by auto
  have par: "m_parent (h x) = par" using T by simp
  consider (P) "d > 0" "\<not> d \<le> int (size r)" | (N) "d < 0" "\<not> - d \<le> int (size l)"
    using False by fastforce
  then show ?thesis
  proof cases
    case P
    then show ?thesis
      using False szl szr par
      by (subst offset.simps) (auto simp: offset_exit_def algebra_simps split: option.splits)
  next
    case N
    then show ?thesis
      using False szl szr par
      by (subst offset.simps) (auto simp: offset_exit_def algebra_simps split: option.splits)
  qed
qed

lemma offset_up:
  "is_tree h (Some b) par s \<Longrightarrow> i < size s \<Longrightarrow>
   offset h (inorder s ! i) d =
     (if 0 \<le> int i + d \<and> int i + d < int (size s)
      then Some (Some (inorder s ! nat (int i + d)))
      else offset_exit h b par (size s) (int i + d))"
proof (induction s arbitrary: b par i d)
  case Leaf
  then show ?case by simp
next
  case (Node l x r)
  from Node.prems have b: "b = x" by simp
  have T: "is_tree h (Some x) par (Node l x r)" using Node.prems b by simp
  let ?s = "Node l x r"
  consider (L) "i < size l" | (M) "i = size l" | (R) "size l < i" by linarith
  then show ?case
  proof cases
    case M
    then show ?thesis unfolding b using offset_root[OF T, of d] by (simp add: nth_append)
  next
    case L
    from is_tree_left_ptr[OF T] L obtain c where
      c: "m_left (h x) = Some c" "is_tree h (Some c) (Some x) l" by fastforce
    have nth: "inorder ?s ! i = inorder l ! i" using L by (rule nth_inorder_left)
    have IH: "offset h (inorder l ! i) d =
       (if 0 \<le> int i + d \<and> int i + d < int (size l)
        then Some (Some (inorder l ! nat (int i + d)))
        else offset_exit h c (Some x) (size l) (int i + d))"
      using Node.IH(1)[OF c(2) L] .
    show ?thesis
    proof (cases "0 \<le> int i + d \<and> int i + d < int (size l)")
      case True
      then have "inorder ?s ! nat (int i + d) = inorder l ! nat (int i + d)"
        by (intro nth_inorder_left) linarith
      then show ?thesis unfolding b nth using IH True by simp
    next
      case False
      have "offset h (inorder l ! i) d = offset h x (int i + d - int (size l))"
        using IH False c(1) by (simp add: offset_exit_def)
      also have "\<dots> =
         (if 0 \<le> int i + d \<and> int i + d < int (size ?s)
          then Some (Some (inorder ?s ! nat (int i + d)))
          else offset_exit h x par (size ?s) (int i + d))"
        using offset_root[OF T, of "int i + d - int (size l)"] by simp
      finally show ?thesis unfolding b nth .
    qed
  next
    case R
    let ?j = "i - size l - 1"
    have j: "?j < size r" using R Node.prems(2) by simp
    from is_tree_right_ptr[OF T] j obtain c where
      c: "m_right (h x) = Some c" "is_tree h (Some c) (Some x) r" by fastforce
    have ne: "m_left (h x) \<noteq> Some c"
      using is_tree_children_ne[OF T, of c] c(1) by auto
    have i: "i = size l + 1 + ?j" using R by simp
    have nth: "inorder ?s ! i = inorder r ! ?j"
      using nth_inorder_right[of l x r ?j] i by simp
    have IH: "offset h (inorder r ! ?j) d =
       (if 0 \<le> int ?j + d \<and> int ?j + d < int (size r)
        then Some (Some (inorder r ! nat (int ?j + d)))
        else offset_exit h c (Some x) (size r) (int ?j + d))"
      using Node.IH(2)[OF c(2) j] .
    have ij: "int ?j + d = int i + d - int (size l) - 1" using R by linarith
    show ?thesis
    proof (cases "0 \<le> int ?j + d \<and> int ?j + d < int (size r)")
      case True
      have "nat (int i + d) = size l + 1 + nat (int ?j + d)" using True ij by linarith
      then have "inorder ?s ! nat (int i + d) = inorder r ! nat (int ?j + d)"
        using nth_inorder_right[of l x r "nat (int ?j + d)"] by simp
      moreover have "0 \<le> int i + d \<and> int i + d < int (size ?s)" using True ij by simp
      ultimately show ?thesis unfolding b nth using IH True by simp
    next
      case False
      have "offset h (inorder r ! ?j) d = offset h x (int ?j + d + 1)"
        using IH False ne by (auto simp add: offset_exit_def)
      also have "int ?j + d + 1 = int i + d - int (size l)" using ij by simp
      also have "offset h x (int i + d - int (size l)) =
         (if 0 \<le> int i + d \<and> int i + d < int (size ?s)
          then Some (Some (inorder ?s ! nat (int i + d)))
          else offset_exit h x par (size ?s) (int i + d))"
        using offset_root[OF T, of "int i + d - int (size l)"] by simp
      finally show ?thesis unfolding b nth .
    qed
  qed
qed

lemma offset_is_tree:
  assumes "is_tree h (Some r) None t" "i < size t"
  shows "offset h (inorder t ! i) d =
     Some (if 0 \<le> int i + d \<and> int i + d < int (size t)
           then Some (inorder t ! nat (int i + d)) else None)"
  using offset_up[OF assms, of d] by (simp add: offset_exit_def)


lemma first_is_tree:
  "is_tree h (Some a) par t \<Longrightarrow> first h a = Some (inorder t ! 0)"
proof (induction t arbitrary: a par)
  case Leaf
  then show ?case by simp
next
  case (Node l x r)
  from Node.prems have a: "a = x" by simp
  have T: "is_tree h (Some x) par (Node l x r)" using Node.prems a by simp
  show ?case
  proof (cases "l = Leaf")
    case True
    then have "m_left (h x) = None" using T by simp
    then show ?thesis unfolding a using True by (subst first.simps) simp
  next
    case False
    then have "0 < size l" by (cases l) auto
    with is_tree_left_ptr[OF T] obtain c where
      c: "m_left (h x) = Some c" "is_tree h (Some c) (Some x) l" by fastforce
    have "inorder (Node l x r) ! 0 = inorder l ! 0"
      using \<open>0 < size l\<close> by (intro nth_inorder_left)
    then show ?thesis
      unfolding a using Node.IH(1)[OF c(2)] c(1) by (subst first.simps) simp
  qed
qed

lemma last_is_tree:
  "is_tree h (Some a) par t \<Longrightarrow> last_node h a = Some (inorder t ! (size t - 1))"
proof (induction t arbitrary: a par)
  case Leaf
  then show ?case by simp
next
  case (Node l x r)
  from Node.prems have a: "a = x" by simp
  have T: "is_tree h (Some x) par (Node l x r)" using Node.prems a by simp
  show ?case
  proof (cases "r = Leaf")
    case True
    then have "m_right (h x) = None" using T by simp
    then show ?thesis unfolding a using True by (subst last_node.simps) (simp add: nth_append)
  next
    case False
    then have pos: "0 < size r" by (cases r) auto
    with is_tree_right_ptr[OF T] obtain c where
      c: "m_right (h x) = Some c" "is_tree h (Some c) (Some x) r" by fastforce
    have "size (Node l x r) - 1 = size l + 1 + (size r - 1)" using pos by simp
    then have "inorder (Node l x r) ! (size (Node l x r) - 1) = inorder r ! (size r - 1)"
      using nth_inorder_right[of l x r "size r - 1"] by simp
    then show ?thesis
      unfolding a using Node.IH(2)[OF c(2)] c(1) by (subst last_node.simps) simp
  qed
qed

lemma next_node_up:
  "is_tree h (Some b) par s \<Longrightarrow> i < size s \<Longrightarrow>
   next_node h (inorder s ! i) =
     (if i + 1 < size s then Some (Some (inorder s ! (i + 1))) else next_loop h b)"
proof (induction s arbitrary: b par i)
  case Leaf
  then show ?case by simp
next
  case (Node l x r)
  from Node.prems have b: "b = x" by simp
  have T: "is_tree h (Some x) par (Node l x r)" using Node.prems b by simp
  let ?s = "Node l x r"
  consider (L) "i < size l" | (M) "i = size l" | (R) "size l < i" by linarith
  then show ?case
  proof cases
    case M
    have nth: "inorder ?s ! i = x" using M by (simp add: nth_append)
    show ?thesis
    proof (cases "r = Leaf")
      case True
      then have "m_right (h x) = None" using T by simp
      then show ?thesis unfolding b nth using True M by (simp add: next_node_def)
    next
      case False
      then have pos: "0 < size r" by (cases r) auto
      with is_tree_right_ptr[OF T] obtain c where
        c: "m_right (h x) = Some c" "is_tree h (Some c) (Some x) r" by fastforce
      have "inorder ?s ! (i + 1) = inorder r ! 0"
        using nth_inorder_right[of l x r 0] M by simp
      then show ?thesis
        unfolding b nth using first_is_tree[OF c(2)] c(1) pos M by (simp add: next_node_def)
    qed
  next
    case L
    from is_tree_left_ptr[OF T] L obtain c where
      c: "m_left (h x) = Some c" "is_tree h (Some c) (Some x) l" by fastforce
    have nth: "inorder ?s ! i = inorder l ! i" using L by (rule nth_inorder_left)
    have IH: "next_node h (inorder l ! i) =
       (if i + 1 < size l then Some (Some (inorder l ! (i + 1))) else next_loop h c)"
      using Node.IH(1)[OF c(2) L] .
    show ?thesis
    proof (cases "i + 1 < size l")
      case True
      then show ?thesis unfolding b nth using IH nth_inorder_left[of "i + 1" l x r] by simp
    next
      case False
      then have i: "i + 1 = size l" using L by simp
      have "next_loop h c = Some (Some x)"
        using is_tree_root[OF c(2)] is_tree_children_ne[OF T c(1)]
        by (subst next_loop.simps) auto
      then show ?thesis
        unfolding b nth using IH False i nth_inorder_root[of l x r] by simp
    qed
  next
    case R
    let ?j = "i - size l - 1"
    have j: "?j < size r" using R Node.prems(2) by simp
    from is_tree_right_ptr[OF T] j obtain c where
      c: "m_right (h x) = Some c" "is_tree h (Some c) (Some x) r" by fastforce
    have i: "i = size l + 1 + ?j" using R by simp
    have nth: "inorder ?s ! i = inorder r ! ?j"
      using nth_inorder_right[of l x r ?j] i by simp
    have IH: "next_node h (inorder r ! ?j) =
       (if ?j + 1 < size r then Some (Some (inorder r ! (?j + 1))) else next_loop h c)"
      using Node.IH(2)[OF c(2) j] .
    show ?thesis
    proof (cases "?j + 1 < size r")
      case True
      have "i + 1 = size l + 1 + (?j + 1)" using R by simp
      then have "inorder ?s ! (i + 1) = inorder r ! (?j + 1)"
        using nth_inorder_right[of l x r "?j + 1"] by simp
      moreover have "i + 1 < size ?s" using True R by simp
      ultimately show ?thesis unfolding b nth using IH True by simp
    next
      case False
      have "next_loop h c = next_loop h x"
        using is_tree_root[OF c(2)] c(1) by (subst next_loop.simps) simp
      moreover have "\<not> i + 1 < size ?s" using False R by simp
      ultimately show ?thesis unfolding b nth using IH False by simp
    qed
  qed
qed

lemma previous_up:
  "is_tree h (Some b) par s \<Longrightarrow> i < size s \<Longrightarrow>
   previous h (inorder s ! i) =
     (if 0 < i then Some (Some (inorder s ! (i - 1))) else previous_loop h b)"
proof (induction s arbitrary: b par i)
  case Leaf
  then show ?case by simp
next
  case (Node l x r)
  from Node.prems have b: "b = x" by simp
  have T: "is_tree h (Some x) par (Node l x r)" using Node.prems b by simp
  let ?s = "Node l x r"
  consider (L) "i < size l" | (M) "i = size l" | (R) "size l < i" by linarith
  then show ?case
  proof cases
    case M
    have nth: "inorder ?s ! i = x" using M by (simp add: nth_append)
    show ?thesis
    proof (cases "l = Leaf")
      case True
      then have "m_left (h x) = None" using T by simp
      then show ?thesis unfolding b nth using True M by (simp add: previous_def)
    next
      case False
      then have pos: "0 < size l" by (cases l) auto
      with is_tree_left_ptr[OF T] obtain c where
        c: "m_left (h x) = Some c" "is_tree h (Some c) (Some x) l" by fastforce
      have "inorder ?s ! (i - 1) = inorder l ! (size l - 1)"
        using nth_inorder_left[of "size l - 1" l x r] M pos by simp
      then show ?thesis
        unfolding b nth using last_is_tree[OF c(2)] c(1) pos M by (simp add: previous_def)
    qed
  next
    case L
    from is_tree_left_ptr[OF T] L obtain c where
      c: "m_left (h x) = Some c" "is_tree h (Some c) (Some x) l" by fastforce
    have nth: "inorder ?s ! i = inorder l ! i" using L by (rule nth_inorder_left)
    have IH: "previous h (inorder l ! i) =
       (if 0 < i then Some (Some (inorder l ! (i - 1))) else previous_loop h c)"
      using Node.IH(1)[OF c(2) L] .
    show ?thesis
    proof (cases "0 < i")
      case True
      then show ?thesis
        unfolding b nth using IH L nth_inorder_left[of "i - 1" l x r] by simp
    next
      case False
      have "previous_loop h c = previous_loop h x"
        using is_tree_root[OF c(2)] c(1) by (subst previous_loop.simps) simp
      then show ?thesis unfolding b nth using IH False by simp
    qed
  next
    case R
    let ?j = "i - size l - 1"
    have j: "?j < size r" using R Node.prems(2) by simp
    from is_tree_right_ptr[OF T] j obtain c where
      c: "m_right (h x) = Some c" "is_tree h (Some c) (Some x) r" by fastforce
    have ne: "m_left (h x) \<noteq> Some c"
      using is_tree_children_ne[OF T, of c] c(1) by auto
    have i: "i = size l + 1 + ?j" using R by simp
    have nth: "inorder ?s ! i = inorder r ! ?j"
      using nth_inorder_right[of l x r ?j] i by simp
    have IH: "previous h (inorder r ! ?j) =
       (if 0 < ?j then Some (Some (inorder r ! (?j - 1))) else previous_loop h c)"
      using Node.IH(2)[OF c(2) j] .
    show ?thesis
    proof (cases "0 < ?j")
      case True
      have "i - 1 = size l + 1 + (?j - 1)" using True by simp
      then have "inorder ?s ! (i - 1) = inorder r ! (?j - 1)"
        using nth_inorder_right[of l x r "?j - 1"] by simp
      then show ?thesis unfolding b nth using IH True R by simp
    next
      case False
      then have "i - 1 = size l" using R by simp
      then have "inorder ?s ! (i - 1) = x" using nth_inorder_root[of l x r] by simp
      moreover have "previous_loop h c = Some (Some x)"
        using is_tree_root[OF c(2)] ne by (subst previous_loop.simps) auto
      ultimately show ?thesis unfolding b nth using IH False R by simp
    qed
  qed
qed

lemma next_node_is_tree:
  assumes "is_tree h (Some r) None t" "i < size t"
  shows "next_node h (inorder t ! i) =
     Some (if i + 1 < size t then Some (inorder t ! (i + 1)) else None)"
proof -
  have "next_loop h r = Some None"
    using is_tree_root[OF assms(1)] by (subst next_loop.simps) simp
  then show ?thesis using next_node_up[OF assms] by simp
qed

lemma previous_is_tree:
  assumes "is_tree h (Some r) None t" "i < size t"
  shows "previous h (inorder t ! i) =
     Some (if 0 < i then Some (inorder t ! (i - 1)) else None)"
proof -
  have "previous_loop h r = Some None"
    using is_tree_root[OF assms(1)] by (subst previous_loop.simps) simp
  then show ?thesis using previous_up[OF assms] by simp
qed


text \<open>
  C5: in a well-formed tree whose root has no parent, \<open>offset(0)\<close> is the node itself,
  \<open>offset(1)\<close> is \<open>next()\<close>, \<open>offset(-1)\<close> is \<open>previous()\<close>, and \<open>offset(d)\<close> is the
  node of rank \<open>index() + d\<close>, or \<open>NULL\<close> exactly when that rank is not a rank of the tree.
\<close>

theorem offset_moves_by_rank:
  assumes "is_tree h (Some r) None t" and "a \<in> set_tree t"
  shows "offset h a 0 = Some (Some a) \<and>
         (\<exists>n. offset h a 1 = Some n \<and> next_node h a = Some n) \<and>
         (\<exists>p. offset h a (- 1) = Some p \<and> previous h a = Some p) \<and>
         (\<exists>i. index h a = Some i \<and>
              offset h a d =
                Some (if 0 \<le> int i + d \<and> int i + d < int (size t)
                      then Some (inorder t ! nat (int i + d)) else None) \<and>
              (offset h a d = Some None \<longleftrightarrow>
                 int i + d < 0 \<or> int (size t) \<le> int i + d))"
proof -
  let ?i = "rank t a"
  have i: "?i < size t" and nth: "inorder t ! ?i = a"
    using rank_less[OF assms(2)] by simp_all
  have off: "offset h a e =
     Some (if 0 \<le> int ?i + e \<and> int ?i + e < int (size t)
           then Some (inorder t ! nat (int ?i + e)) else None)" for e
    using offset_is_tree[OF assms(1) i, of e] nth by simp
  have zero: "offset h a 0 = Some (Some a)"
    using off[of 0] i nth by simp
  have nx: "next_node h a =
     Some (if ?i + 1 < size t then Some (inorder t ! (?i + 1)) else None)"
    using next_node_is_tree[OF assms(1) i] nth by simp
  have "nat (int ?i + 1) = ?i + 1" by simp
  then have one: "offset h a 1 = next_node h a"
    using off[of 1] nx by simp
  have pv: "previous h a =
     Some (if 0 < ?i then Some (inorder t ! (?i - 1)) else None)"
    using previous_is_tree[OF assms(1) i] nth by simp
  have "nat (int ?i + - 1) = ?i - 1" by simp
  then have mone: "offset h a (- 1) = previous h a"
    using off[of "- 1"] pv i by auto
  have idx: "index h a = Some ?i"
    using index_rank[OF assms] .
  have absent: "offset h a d = Some None \<longleftrightarrow>
      int ?i + d < 0 \<or> int (size t) \<le> int ?i + d"
    using off[of d] by auto
  show ?thesis
    using zero one nx mone pv idx off[of d] absent by simp
qed

theorem offset_moves_by_rank_witness:
  "offset store3 3 0 = Some (Some 3) \<and>
   (\<exists>n. offset store3 3 1 = Some n \<and> next_node store3 3 = Some n) \<and>
   (\<exists>p. offset store3 3 (- 1) = Some p \<and> previous store3 3 = Some p) \<and>
   (\<exists>i. index store3 3 = Some i \<and>
        offset store3 3 (- 2) =
          Some (if 0 \<le> int i + - 2 \<and> int i + - 2 < int (size tree3)
                then Some (inorder tree3 ! nat (int i + - 2)) else None) \<and>
        (offset store3 3 (- 2) = Some None \<longleftrightarrow>
           int i + - 2 < 0 \<or> int (size tree3) \<le> int i + - 2))"
proof -
  have a: "3 \<in> set_tree tree3" by (simp add: tree3_def)
  show ?thesis
    using offset_moves_by_rank[OF store3_is_tree a, of "- 2"] .
qed

section \<open>Ordered lookup\<close>

lemma find_append_none: "\<forall>a \<in> set xs. \<not> P a \<Longrightarrow> List.find P (xs @ ys) = List.find P ys"
  by (induction xs) auto

lemma find_append_case:
  "List.find P (xs @ ys) = (case List.find P xs of None \<Rightarrow> List.find P ys | Some a \<Rightarrow> Some a)"
  by (induction xs) auto

lemma leftmost_Leaf: "leftmost P Leaf res = res"
  by (simp add: leftmost_def)

lemma leftmost_right:
  "\<forall>a \<in> set_tree l. \<not> P a \<Longrightarrow> \<not> P x \<Longrightarrow> leftmost P (Node l x r) res = leftmost P r res"
  by (simp add: leftmost_def find_append_none)

lemma leftmost_left:
  "P x \<Longrightarrow> leftmost P (Node l x r) res = leftmost P l (Some x)"
  by (simp add: leftmost_def find_append_case split: option.splits)

lemma lower_bound_is_tree:
  assumes nt: "\<forall>x y z. \<not> lt x y \<longrightarrow> \<not> lt y z \<longrightarrow> \<not> lt x z"
  shows "is_tree h p par t \<Longrightarrow> ordered (node_compare lt val) t \<Longrightarrow>
         lower_bound h val p k lt res = Some (leftmost (\<lambda>a. \<not> lt (val a) k) t res)"
proof (induction t arbitrary: p par res)
  case Leaf
  then show ?case by (subst lower_bound.simps) (simp add: leftmost_Leaf)
next
  case (Node l x r)
  from Node.prems have p: "p = Some x" by simp
  have tl: "is_tree h (m_left (h x)) (Some x) l" and tr: "is_tree h (m_right (h x)) (Some x) r"
    using Node.prems by simp_all
  have ol: "ordered (node_compare lt val) l" and or: "ordered (node_compare lt val) r"
    using Node.prems by simp_all
  show ?case
  proof (cases "lt (val x) k")
    case True
    have "\<forall>a \<in> set_tree l. \<not> \<not> lt (val a) k"
    proof
      fix a assume "a \<in> set_tree l"
      then have "\<not> lt (val x) (val a)" using Node.prems(2) by (simp add: node_compare_def)
      then show "\<not> \<not> lt (val a) k" using nt True by blast
    qed
    then have "leftmost (\<lambda>a. \<not> lt (val a) k) (Node l x r) res = leftmost (\<lambda>a. \<not> lt (val a) k) r res"
      using True by (intro leftmost_right) simp_all
    then show ?thesis
      unfolding p using True Node.IH(2)[OF tr or, of res] by (subst lower_bound.simps) simp
  next
    case False
    then have "leftmost (\<lambda>a. \<not> lt (val a) k) (Node l x r) res = leftmost (\<lambda>a. \<not> lt (val a) k) l (Some x)"
      by (intro leftmost_left)
    then show ?thesis
      unfolding p using False Node.IH(1)[OF tl ol, of "Some x"] by (subst lower_bound.simps) simp
  qed
qed

lemma upper_bound_is_tree:
  assumes nt: "\<forall>x y z. \<not> lt x y \<longrightarrow> \<not> lt y z \<longrightarrow> \<not> lt x z"
  shows "is_tree h p par t \<Longrightarrow> ordered (node_compare lt val) t \<Longrightarrow>
         upper_bound h val p k lt res = Some (leftmost (\<lambda>a. lt k (val a)) t res)"
proof (induction t arbitrary: p par res)
  case Leaf
  then show ?case by (subst upper_bound.simps) (simp add: leftmost_Leaf)
next
  case (Node l x r)
  from Node.prems have p: "p = Some x" by simp
  have tl: "is_tree h (m_left (h x)) (Some x) l" and tr: "is_tree h (m_right (h x)) (Some x) r"
    using Node.prems by simp_all
  have ol: "ordered (node_compare lt val) l" and or: "ordered (node_compare lt val) r"
    using Node.prems by simp_all
  show ?case
  proof (cases "lt k (val x)")
    case False
    have "\<forall>a \<in> set_tree l. \<not> lt k (val a)"
    proof
      fix a assume "a \<in> set_tree l"
      then have "\<not> lt (val x) (val a)" using Node.prems(2) by (simp add: node_compare_def)
      then show "\<not> lt k (val a)" using nt False by blast
    qed
    then have "leftmost (\<lambda>a. lt k (val a)) (Node l x r) res = leftmost (\<lambda>a. lt k (val a)) r res"
      using False by (intro leftmost_right) simp_all
    then show ?thesis
      unfolding p using False Node.IH(2)[OF tr or, of res] by (subst upper_bound.simps) simp
  next
    case True
    then have "leftmost (\<lambda>a. lt k (val a)) (Node l x r) res = leftmost (\<lambda>a. lt k (val a)) l (Some x)"
      by (intro leftmost_left)
    then show ?thesis
      unfolding p using True Node.IH(1)[OF tl ol, of "Some x"] by (subst upper_bound.simps) simp
  qed
qed

lemma swo_irrefl: "strict_weak_order lt \<Longrightarrow> \<not> lt x x"
  by (simp add: strict_weak_order_def)

lemma swo_trans: "strict_weak_order lt \<Longrightarrow> lt x y \<Longrightarrow> lt y z \<Longrightarrow> lt x z"
  unfolding strict_weak_order_def by blast

lemma swo_negtrans: "strict_weak_order lt \<Longrightarrow> \<not> lt x y \<Longrightarrow> \<not> lt y z \<Longrightarrow> \<not> lt x z"
  unfolding strict_weak_order_def by blast

lemma swo_asym: "strict_weak_order lt \<Longrightarrow> lt x y \<Longrightarrow> \<not> lt y x"
  using swo_irrefl swo_trans by metis

lemma swo_nt: "strict_weak_order lt \<Longrightarrow> \<forall>x y z. \<not> lt x y \<longrightarrow> \<not> lt y z \<longrightarrow> \<not> lt x z"
  unfolding strict_weak_order_def by blast

lemma ordered_sorted:
  assumes "strict_weak_order lt"
  shows "ordered (node_compare lt val) t \<Longrightarrow>
         sorted_wrt (\<lambda>a b. \<not> lt (val b) (val a)) (inorder t)"
proof (induction t)
  case Leaf
  then show ?case by simp
next
  case (Node l x r)
  have "\<not> lt (val b) (val a)" if "a \<in> set_tree l" "b \<in> set_tree r" for a b
  proof -
    have "\<not> lt (val x) (val a)" "\<not> lt (val b) (val x)"
      using Node.prems that by (simp_all add: node_compare_def)
    then show ?thesis using swo_negtrans[OF assms] by blast
  qed
  then show ?case
    using Node by (auto simp: sorted_wrt_append node_compare_def)
qed


lemma bounds_equal_iff:
  assumes swo: "strict_weak_order lt"
    and srt: "sorted_wrt (\<lambda>a b. \<not> lt (val b) (val a)) xs"
    and res: "\<forall>a \<in> set xs. res \<noteq> Some a"
  shows "(case List.find (\<lambda>a. \<not> lt (val a) k) xs of None \<Rightarrow> res | Some a \<Rightarrow> Some a) =
         (case List.find (\<lambda>a. lt k (val a)) xs of None \<Rightarrow> res | Some a \<Rightarrow> Some a) \<longleftrightarrow>
         \<not> (\<exists>a \<in> set xs. equiv_for lt (val a) k)"
proof (cases "\<exists>a \<in> set xs. equiv_for lt (val a) k")
  case False
  have "(\<not> lt (val a) k) = lt k (val a)" if "a \<in> set xs" for a
    using False that swo_asym[OF swo] by (auto simp: equiv_for_def)
  then have "List.find (\<lambda>a. \<not> lt (val a) k) xs = List.find (\<lambda>a. lt k (val a)) xs"
    by (intro find_cong) simp_all
  then show ?thesis using False by simp
next
  case True
  then obtain e where e: "e \<in> set xs" "\<not> lt (val e) k" "\<not> lt k (val e)"
    by (auto simp: equiv_for_def)
  then have "List.find (\<lambda>a. \<not> lt (val a) k) xs \<noteq> None"
    by (auto simp: find_None_iff)
  then obtain f where f: "List.find (\<lambda>a. \<not> lt (val a) k) xs = Some f" by auto
  then obtain i where i: "i < length xs" "f = xs ! i" "\<forall>j < i. \<not> \<not> lt (val (xs ! j)) k"
    by (auto simp: find_Some_iff)
  from e(1) obtain j where j: "j < length xs" "e = xs ! j"
    by (auto simp: in_set_conv_nth)
  have ij: "i \<le> j" using i(3) j e(2) by (meson not_le)
  have nf: "\<not> lt k (val f)"
  proof (cases "i = j")
    case True
    then show ?thesis using e(3) i(2) j(2) by simp
  next
    case False
    then have "i < j" using ij by simp
    then have "\<not> lt (val e) (val f)"
      using srt i(2) j by (auto simp: sorted_wrt_iff_nth_less)
    then show ?thesis using swo_negtrans[OF swo e(3)] by blast
  qed
  have fin: "f \<in> set xs" using i by simp
  have "Some f \<noteq> (case List.find (\<lambda>a. lt k (val a)) xs of None \<Rightarrow> res | Some a \<Rightarrow> Some a)"
  proof (cases "List.find (\<lambda>a. lt k (val a)) xs")
    case None
    then show ?thesis using res fin by auto
  next
    case (Some g)
    then have "lt k (val g)" by (auto simp: find_Some_iff)
    then show ?thesis using Some nf by auto
  qed
  then show ?thesis using True f by simp
qed

lemma find_node_is_tree:
  assumes swo: "strict_weak_order lt"
  shows "is_tree h p par t \<Longrightarrow> ordered (node_compare lt val) t \<Longrightarrow>
     \<exists>r. find_node h val p k lt res = Some r \<and>
         (if \<exists>a \<in> set_tree t. equiv_for lt (val a) k
          then \<exists>a \<in> set_tree t. r = Some a \<and> equiv_for lt (val a) k
          else r = res)"
proof (induction t arbitrary: p par)
  case Leaf
  then show ?case by (subst find_node.simps) simp
next
  case (Node l x r)
  from Node.prems have p: "p = Some x" by simp
  have tl: "is_tree h (m_left (h x)) (Some x) l" and tr: "is_tree h (m_right (h x)) (Some x) r"
    using Node.prems by simp_all
  have ol: "ordered (node_compare lt val) l" and or: "ordered (node_compare lt val) r"
    using Node.prems by simp_all
  have lx: "\<not> lt (val x) (val a)" if "a \<in> set_tree l" for a
    using Node.prems(2) that by (simp add: node_compare_def)
  have xr: "\<not> lt (val a) (val x)" if "a \<in> set_tree r" for a
    using Node.prems(2) that by (simp add: node_compare_def)
  consider (L) "lt k (val x)" | (R) "\<not> lt k (val x)" "lt (val x) k"
    | (E) "\<not> lt k (val x)" "\<not> lt (val x) k" by blast
  then show ?case
  proof cases
    case L
    have "\<not> equiv_for lt (val a) k" if "a \<in> set_tree r" for a
      using xr[OF that] L swo_negtrans[OF swo, of k "val a" "val x"] by (auto simp: equiv_for_def)
    moreover have "\<not> equiv_for lt (val x) k" using L by (simp add: equiv_for_def)
    ultimately have eq: "(\<exists>a \<in> set_tree (Node l x r). equiv_for lt (val a) k) \<longleftrightarrow>
        (\<exists>a \<in> set_tree l. equiv_for lt (val a) k)" by auto
    have step: "find_node h val p k lt res = find_node h val (m_left (h x)) k lt res"
      unfolding p using L by (subst find_node.simps) simp
    from Node.IH(1)[OF tl ol] obtain q where q: "find_node h val (m_left (h x)) k lt res = Some q"
      "if \<exists>a \<in> set_tree l. equiv_for lt (val a) k
       then \<exists>a \<in> set_tree l. q = Some a \<and> equiv_for lt (val a) k else q = res"
      by blast
    have fin: "if \<exists>a \<in> set_tree (Node l x r). equiv_for lt (val a) k
       then \<exists>a \<in> set_tree (Node l x r). q = Some a \<and> equiv_for lt (val a) k else q = res"
    proof (cases "\<exists>a \<in> set_tree l. equiv_for lt (val a) k")
      case True
      then have "\<exists>a \<in> set_tree l. q = Some a \<and> equiv_for lt (val a) k" using q(2) by simp
      then have "\<exists>a \<in> set_tree (Node l x r). q = Some a \<and> equiv_for lt (val a) k" by auto
      then show ?thesis using True eq by simp
    next
      case False
      then show ?thesis using q(2) eq by simp
    qed
    show ?thesis unfolding step q(1)
      by (rule exI[of _ q], rule conjI, rule refl, rule fin)
  next
    case R
    have "\<not> equiv_for lt (val a) k" if "a \<in> set_tree l" for a
      using lx[OF that] R swo_negtrans[OF swo, of "val x" "val a" k] by (auto simp: equiv_for_def)
    moreover have "\<not> equiv_for lt (val x) k" using R by (simp add: equiv_for_def)
    ultimately have eq: "(\<exists>a \<in> set_tree (Node l x r). equiv_for lt (val a) k) \<longleftrightarrow>
        (\<exists>a \<in> set_tree r. equiv_for lt (val a) k)" by auto
    have step: "find_node h val p k lt res = find_node h val (m_right (h x)) k lt res"
      unfolding p using R by (subst find_node.simps) simp
    from Node.IH(2)[OF tr or] obtain q where q: "find_node h val (m_right (h x)) k lt res = Some q"
      "if \<exists>a \<in> set_tree r. equiv_for lt (val a) k
       then \<exists>a \<in> set_tree r. q = Some a \<and> equiv_for lt (val a) k else q = res"
      by blast
    have fin: "if \<exists>a \<in> set_tree (Node l x r). equiv_for lt (val a) k
       then \<exists>a \<in> set_tree (Node l x r). q = Some a \<and> equiv_for lt (val a) k else q = res"
    proof (cases "\<exists>a \<in> set_tree r. equiv_for lt (val a) k")
      case True
      then have "\<exists>a \<in> set_tree r. q = Some a \<and> equiv_for lt (val a) k" using q(2) by simp
      then have "\<exists>a \<in> set_tree (Node l x r). q = Some a \<and> equiv_for lt (val a) k" by auto
      then show ?thesis using True eq by simp
    next
      case False
      then show ?thesis using q(2) eq by simp
    qed
    show ?thesis unfolding step q(1)
      by (rule exI[of _ q], rule conjI, rule refl, rule fin)
  next
    case E
    have "find_node h val p k lt res = Some (Some x)"
      unfolding p using E by (subst find_node.simps) simp
    moreover have "equiv_for lt (val x) k" using E by (simp add: equiv_for_def)
    ultimately show ?thesis by auto
  qed
qed


text \<open>
  C7: in an ordered tree, searched with the strict weak ordering that orders it,
  \<open>lower_bound\<close> returns the leftmost node whose value is not less than \<open>k\<close> and
  \<open>upper_bound\<close> the leftmost node whose value is greater than \<open>k\<close>, each the fallback
  \<open>res\<close> when there is no such node. With a fallback that is not a node of the tree
  (\<open>RbstTree\<close> passes itself, the default is \<open>NULL\<close>) the two results are equal
  exactly when no value of the tree is equal to \<open>k\<close>.
\<close>

theorem bounds_are_leftmost:
  assumes "strict_weak_order lt" and "is_tree h p par t"
    and "ordered (node_compare lt val) t"
  shows "lower_bound h val p k lt res = Some (leftmost (\<lambda>a. \<not> lt (val a) k) t res) \<and>
         upper_bound h val p k lt res = Some (leftmost (\<lambda>a. lt k (val a)) t res) \<and>
         ((\<forall>a \<in> set_tree t. res \<noteq> Some a) \<longrightarrow>
            (lower_bound h val p k lt res = upper_bound h val p k lt res \<longleftrightarrow>
             \<not> (\<exists>a \<in> set_tree t. equiv_for lt (val a) k)))"
proof (intro conjI impI)
  show lb: "lower_bound h val p k lt res = Some (leftmost (\<lambda>a. \<not> lt (val a) k) t res)"
    using lower_bound_is_tree[OF swo_nt[OF assms(1)] assms(2,3)] .
  show ub: "upper_bound h val p k lt res = Some (leftmost (\<lambda>a. lt k (val a)) t res)"
    using upper_bound_is_tree[OF swo_nt[OF assms(1)] assms(2,3)] .
  assume "\<forall>a \<in> set_tree t. res \<noteq> Some a"
  then have "\<forall>a \<in> set (inorder t). res \<noteq> Some a" by simp
  from bounds_equal_iff[OF assms(1) ordered_sorted[OF assms(1,3)] this, of k]
  show "lower_bound h val p k lt res = upper_bound h val p k lt res \<longleftrightarrow>
        \<not> (\<exists>a \<in> set_tree t. equiv_for lt (val a) k)"
    unfolding lb ub by (simp add: leftmost_def)
qed

lemma less_strict_weak_order: "strict_weak_order ((<) :: int \<Rightarrow> int \<Rightarrow> bool)"
  by (auto simp: strict_weak_order_def)

lemma tree3_ordered: "ordered (node_compare (<) val3) tree3"
  by (simp add: tree3_def node_compare_def val3_def)

theorem bounds_are_leftmost_witness:
  "lower_bound store3 val3 (Some 2) 20 (<) None = Some (Some 2) \<and>
   upper_bound store3 val3 (Some 2) 20 (<) None = Some (Some 3) \<and>
   lower_bound store3 val3 (Some 2) 25 (<) None = Some (Some 3) \<and>
   upper_bound store3 val3 (Some 2) 25 (<) None = Some (Some 3) \<and>
   (\<exists>a. a \<in> set_tree tree3 \<and> equiv_for (<) (val3 a) 20)"
proof -
  have "lower_bound store3 val3 (Some 2) k (<) None =
          Some (leftmost (\<lambda>a. \<not> val3 a < k) tree3 None) \<and>
        upper_bound store3 val3 (Some 2) k (<) None =
          Some (leftmost (\<lambda>a. k < val3 a) tree3 None)" for k
    using bounds_are_leftmost[OF less_strict_weak_order store3_is_tree tree3_ordered,
        of k None] by simp
  from this[of 20] this[of 25] show ?thesis
    by (auto simp add: leftmost_def tree3_def val3_def equiv_for_def)
qed

section \<open>Split and insert\<close>

lemma is_tree_frame:
  "(\<forall>a \<in> set_tree t. h' a = h a) \<Longrightarrow> is_tree h' p par t = is_tree h p par t"
  by (induction t arbitrary: p par) auto

lemma is_tree_root_ptr: "is_tree h p par t \<Longrightarrow> p = root_ptr t"
  by (cases t) auto

lemma is_tree_root_ptr_self: "is_tree h p par t \<Longrightarrow> is_tree h (root_ptr t) par t"
  using is_tree_root_ptr by blast

lemma set_tree_spec_split:
  "set_tree (fst (spec_split cmp x t)) \<union> set_tree (snd (spec_split cmp x t)) = set_tree t"
  by (induction t) (auto split: prod.splits)

lemma set_tree_spec_split_fst: "a \<in> set_tree (fst (spec_split cmp x t)) \<Longrightarrow> a \<in> set_tree t"
  using set_tree_spec_split[of cmp x t] by blast

lemma set_tree_spec_split_snd: "a \<in> set_tree (snd (spec_split cmp x t)) \<Longrightarrow> a \<in> set_tree t"
  using set_tree_spec_split[of cmp x t] by blast

lemma split_is_tree:
  "is_tree h (Some tr) par t \<Longrightarrow> lesser \<notin> set_tree t \<Longrightarrow> greater' \<notin> set_tree t \<Longrightarrow>
   \<exists>h'. split h this tr lesser greater' cmp = Some h' \<and>
     is_tree h' (root_ptr (fst (spec_split cmp this t))) (Some lesser) (fst (spec_split cmp this t)) \<and>
     is_tree h' (root_ptr (snd (spec_split cmp this t))) (Some greater') (snd (spec_split cmp this t)) \<and>
     (\<forall>a. a \<notin> set_tree t \<longrightarrow>
        h' a = (if a = lesser
                then (if a = greater'
                      then (h a)\<lparr>m_left := root_ptr (snd (spec_split cmp this t)),
                                 m_right := root_ptr (fst (spec_split cmp this t))\<rparr>
                      else (h a)\<lparr>m_right := root_ptr (fst (spec_split cmp this t))\<rparr>)
                else if a = greater'
                then (h a)\<lparr>m_left := root_ptr (snd (spec_split cmp this t))\<rparr>
                else h a))"
proof (induction t arbitrary: h tr par lesser greater')
  case Leaf
  then show ?case by simp
next
  case (Node l x r)
  from Node.prems have tr: "tr = x" by simp
  have T: "is_tree h (Some x) par (Node l x r)" using Node.prems tr by simp
  have xl: "x \<noteq> lesser" and xg: "x \<noteq> greater'" using Node.prems by auto
  have tl: "is_tree h (m_left (h x)) (Some x) l" and tr': "is_tree h (m_right (h x)) (Some x) r"
    using T by simp_all
  have dl: "x \<notin> set_tree l" and dr: "x \<notin> set_tree r" and dlr: "set_tree l \<inter> set_tree r = {}"
    using T by simp_all
  have ll: "lesser \<notin> set_tree l" and lr: "lesser \<notin> set_tree r"
    and gl: "greater' \<notin> set_tree l" and gr: "greater' \<notin> set_tree r"
    using Node.prems by auto
  show ?case
  proof (cases "cmp this x")
    case True
    obtain lo hi where sp: "spec_split cmp this l = (lo, hi)" by (cases "spec_split cmp this l")
    have res: "spec_split cmp this (Node l x r) = (lo, Node hi x r)" using True sp by simp
    have lo_sub: "set_tree lo \<subseteq> set_tree l" and hi_sub: "set_tree hi \<subseteq> set_tree l"
      using set_tree_spec_split[of cmp this l] sp by auto
    define h1 where "h1 = h(greater' := (h greater')\<lparr>m_left := Some x\<rparr>)"
    define h2 where "h2 = h1(x := (h1 x)\<lparr>m_parent := Some greater'\<rparr>)"
    have h2x: "h2 x = (h x)\<lparr>m_parent := Some greater'\<rparr>"
      using xg by (simp add: h2_def h1_def)
    have h2o: "h2 a = (if a = greater' then (h a)\<lparr>m_left := Some x\<rparr> else h a)" if "a \<noteq> x" for a
      using that by (simp add: h2_def h1_def)
    have "\<exists>h3. (case m_left (h2 x) of Some c \<Rightarrow> split h2 this c lesser x cmp
                 | None \<Rightarrow> Some (h2(lesser := (h2 lesser)\<lparr>m_right := None\<rparr>))) = Some h3 \<and>
            is_tree h3 (root_ptr lo) (Some lesser) lo \<and>
            is_tree h3 (root_ptr hi) (Some x) hi \<and>
            (\<forall>a. a \<notin> set_tree l \<longrightarrow>
               h3 a = (if a = lesser then (h2 a)\<lparr>m_right := root_ptr lo\<rparr>
                       else if a = x then (h2 a)\<lparr>m_left := root_ptr hi\<rparr> else h2 a))"
    proof (cases l)
      case Leaf
      then have "m_left (h x) = None" "lo = Leaf" "hi = Leaf" using tl sp by auto
      then show ?thesis using h2x xl by auto
    next
      case (Node l1 c r1)
      then have c: "m_left (h x) = Some c" using tl by simp
      have "\<forall>a \<in> set_tree l. h2 a = h a"
      proof
        fix a assume "a \<in> set_tree l"
        then have "a \<noteq> x" "a \<noteq> greater'" using dl gl by auto
        then show "h2 a = h a" by (simp add: h2o)
      qed
      then have "is_tree h2 (Some c) (Some x) l"
        using tl c is_tree_frame[of l h2 h "Some c" "Some x"] by simp
      from Node.IH(1)[OF this ll dl] sp xl c h2x
      show ?thesis by auto
    qed
    then obtain h3 where h3: "(case m_left (h2 x) of Some c \<Rightarrow> split h2 this c lesser x cmp
                 | None \<Rightarrow> Some (h2(lesser := (h2 lesser)\<lparr>m_right := None\<rparr>))) = Some h3"
      and t3lo: "is_tree h3 (root_ptr lo) (Some lesser) lo"
      and t3hi: "is_tree h3 (root_ptr hi) (Some x) hi"
      and f3: "\<And>a. a \<notin> set_tree l \<Longrightarrow>
               h3 a = (if a = lesser then (h2 a)\<lparr>m_right := root_ptr lo\<rparr>
                       else if a = x then (h2 a)\<lparr>m_left := root_ptr hi\<rparr> else h2 a)"
      by blast
    have h3x: "h3 x = (h x)\<lparr>m_parent := Some greater', m_left := root_ptr hi\<rparr>"
      using f3[OF dl] xl h2x by simp
    have f3r: "\<forall>a \<in> set_tree r. h3 a = h a"
    proof
      fix a assume a: "a \<in> set_tree r"
      then have "a \<notin> set_tree l" "a \<noteq> x" "a \<noteq> lesser" "a \<noteq> greater'"
        using dlr lr gr dr by auto
      then show "h3 a = h a" by (simp add: f3 h2o)
    qed
    then have t3r: "is_tree h3 (m_right (h x)) (Some x) r"
      using tr' is_tree_frame[of r h3 h] by simp
    define h' where "h' = h3(x := (h3 x)\<lparr>m_size :=
        1 + size_ptr h3 (m_left (h3 x)) + size_ptr h3 (m_right (h3 x))\<rparr>)"
    have sz: "size_ptr h3 (m_left (h3 x)) = size hi" "size_ptr h3 (m_right (h3 x)) = size r"
      using is_tree_size[OF t3hi] is_tree_size[OF t3r] h3x by simp_all
    have h'x: "h' x = (h x)\<lparr>m_parent := Some greater', m_left := root_ptr hi,
                              m_size := 1 + size hi + size r\<rparr>"
      using sz h3x by (simp add: h'_def)
    have h'o: "h' a = h3 a" if "a \<noteq> x" for a using that by (simp add: h'_def)
    have "split h this x lesser greater' cmp =
        Option.bind
          (case m_left (h2 x) of Some c \<Rightarrow> split h2 this c lesser x cmp
           | None \<Rightarrow> Some (h2(lesser := (h2 lesser)\<lparr>m_right := None\<rparr>)))
          (\<lambda>h3. Some (h3(x := (h3 x)\<lparr>m_size :=
              1 + size_ptr h3 (m_left (h3 x)) + size_ptr h3 (m_right (h3 x))\<rparr>)))"
      by (subst split.simps) (simp only: True if_True Let_def h2_def h1_def)
    then have run: "split h this tr lesser greater' cmp = Some h'"
      unfolding tr h3 by (simp add: h'_def)
    have t'lo: "is_tree h' (root_ptr lo) (Some lesser) lo"
      using t3lo is_tree_frame[of lo h' h3] h'o lo_sub dl by (metis subsetD)
    have t'hi: "is_tree h' (root_ptr hi) (Some x) hi"
      using t3hi is_tree_frame[of hi h' h3] h'o hi_sub dl by (metis subsetD)
    have t'r: "is_tree h' (m_right (h x)) (Some x) r"
      using t3r is_tree_frame[of r h' h3] h'o dr by metis
    have t'g: "is_tree h' (Some x) (Some greater') (Node hi x r)"
      using t'hi t'r h'x hi_sub dl dr dlr by auto
    have fr: "h' a = (if a = lesser
                then (if a = greater'
                      then (h a)\<lparr>m_left := Some x, m_right := root_ptr lo\<rparr>
                      else (h a)\<lparr>m_right := root_ptr lo\<rparr>)
                else if a = greater' then (h a)\<lparr>m_left := Some x\<rparr> else h a)"
      if "a \<notin> set_tree (Node l x r)" for a
    proof -
      have "a \<noteq> x" "a \<notin> set_tree l" using that by auto
      then show ?thesis by (simp add: h'o f3 h2o)
    qed
    show ?thesis
      unfolding res using run t'lo t'g fr by simp
  next
    case False
    obtain lo hi where sp: "spec_split cmp this r = (lo, hi)" by (cases "spec_split cmp this r")
    have res: "spec_split cmp this (Node l x r) = (Node l x lo, hi)" using False sp by simp
    have lo_sub: "set_tree lo \<subseteq> set_tree r" and hi_sub: "set_tree hi \<subseteq> set_tree r"
      using set_tree_spec_split[of cmp this r] sp by auto
    define h1 where "h1 = h(lesser := (h lesser)\<lparr>m_right := Some x\<rparr>)"
    define h2 where "h2 = h1(x := (h1 x)\<lparr>m_parent := Some lesser\<rparr>)"
    have h2x: "h2 x = (h x)\<lparr>m_parent := Some lesser\<rparr>"
      using xl by (simp add: h2_def h1_def)
    have h2o: "h2 a = (if a = lesser then (h a)\<lparr>m_right := Some x\<rparr> else h a)" if "a \<noteq> x" for a
      using that by (simp add: h2_def h1_def)
    have "\<exists>h3. (case m_right (h2 x) of Some c \<Rightarrow> split h2 this c x greater' cmp
                 | None \<Rightarrow> Some (h2(greater' := (h2 greater')\<lparr>m_left := None\<rparr>))) = Some h3 \<and>
            is_tree h3 (root_ptr lo) (Some x) lo \<and>
            is_tree h3 (root_ptr hi) (Some greater') hi \<and>
            (\<forall>a. a \<notin> set_tree r \<longrightarrow>
               h3 a = (if a = x then (h2 a)\<lparr>m_right := root_ptr lo\<rparr>
                       else if a = greater' then (h2 a)\<lparr>m_left := root_ptr hi\<rparr> else h2 a))"
    proof (cases r)
      case Leaf
      then have "m_right (h x) = None" "lo = Leaf" "hi = Leaf" using tr' sp by auto
      then show ?thesis using h2x xg by auto
    next
      case (Node l1 c r1)
      then have c: "m_right (h x) = Some c" using tr' by simp
      have "\<forall>a \<in> set_tree r. h2 a = h a"
      proof
        fix a assume "a \<in> set_tree r"
        then have "a \<noteq> x" "a \<noteq> lesser" using dr lr by auto
        then show "h2 a = h a" by (simp add: h2o)
      qed
      then have "is_tree h2 (Some c) (Some x) r"
        using tr' c is_tree_frame[of r h2 h "Some c" "Some x"] by simp
      from Node.IH(2)[OF this dr gr] sp xg c h2x
      show ?thesis by auto
    qed
    then obtain h3 where h3: "(case m_right (h2 x) of Some c \<Rightarrow> split h2 this c x greater' cmp
                 | None \<Rightarrow> Some (h2(greater' := (h2 greater')\<lparr>m_left := None\<rparr>))) = Some h3"
      and t3lo: "is_tree h3 (root_ptr lo) (Some x) lo"
      and t3hi: "is_tree h3 (root_ptr hi) (Some greater') hi"
      and f3: "\<And>a. a \<notin> set_tree r \<Longrightarrow>
               h3 a = (if a = x then (h2 a)\<lparr>m_right := root_ptr lo\<rparr>
                       else if a = greater' then (h2 a)\<lparr>m_left := root_ptr hi\<rparr> else h2 a)"
      by blast
    have h3x: "h3 x = (h x)\<lparr>m_parent := Some lesser, m_right := root_ptr lo\<rparr>"
      using f3[OF dr] h2x by simp
    have f3l: "\<forall>a \<in> set_tree l. h3 a = h a"
    proof
      fix a assume a: "a \<in> set_tree l"
      then have "a \<notin> set_tree r" "a \<noteq> x" "a \<noteq> lesser" "a \<noteq> greater'"
        using dlr ll gl dl by auto
      then show "h3 a = h a" by (simp add: f3 h2o)
    qed
    then have t3l: "is_tree h3 (m_left (h x)) (Some x) l"
      using tl is_tree_frame[of l h3 h] by simp
    define h' where "h' = h3(x := (h3 x)\<lparr>m_size :=
        1 + size_ptr h3 (m_left (h3 x)) + size_ptr h3 (m_right (h3 x))\<rparr>)"
    have sz: "size_ptr h3 (m_left (h3 x)) = size l" "size_ptr h3 (m_right (h3 x)) = size lo"
      using is_tree_size[OF t3lo] is_tree_size[OF t3l] h3x by simp_all
    have h'x: "h' x = (h x)\<lparr>m_parent := Some lesser, m_right := root_ptr lo,
                              m_size := 1 + size l + size lo\<rparr>"
      using sz h3x by (simp add: h'_def)
    have h'o: "h' a = h3 a" if "a \<noteq> x" for a using that by (simp add: h'_def)
    have "split h this x lesser greater' cmp =
        Option.bind
          (case m_right (h2 x) of Some c \<Rightarrow> split h2 this c x greater' cmp
           | None \<Rightarrow> Some (h2(greater' := (h2 greater')\<lparr>m_left := None\<rparr>)))
          (\<lambda>h3. Some (h3(x := (h3 x)\<lparr>m_size :=
              1 + size_ptr h3 (m_left (h3 x)) + size_ptr h3 (m_right (h3 x))\<rparr>)))"
      by (subst split.simps) (simp only: False if_False Let_def h2_def h1_def)
    then have run: "split h this tr lesser greater' cmp = Some h'"
      unfolding tr h3 by (simp add: h'_def)
    have t'lo: "is_tree h' (root_ptr lo) (Some x) lo"
      using t3lo is_tree_frame[of lo h' h3] h'o lo_sub dr by (metis subsetD)
    have t'hi: "is_tree h' (root_ptr hi) (Some greater') hi"
      using t3hi is_tree_frame[of hi h' h3] h'o hi_sub dr by (metis subsetD)
    have t'l: "is_tree h' (m_left (h x)) (Some x) l"
      using t3l is_tree_frame[of l h' h3] h'o dl by metis
    have t'g: "is_tree h' (Some x) (Some lesser) (Node l x lo)"
      using t'lo t'l h'x lo_sub dl dr dlr by auto
    have fr: "h' a = (if a = lesser
                then (if a = greater'
                      then (h a)\<lparr>m_left := root_ptr hi, m_right := Some x\<rparr>
                      else (h a)\<lparr>m_right := Some x\<rparr>)
                else if a = greater' then (h a)\<lparr>m_left := root_ptr hi\<rparr> else h a)"
      if "a \<notin> set_tree (Node l x r)" for a
    proof -
      have "a \<noteq> x" "a \<notin> set_tree r" using that by auto
      then show ?thesis by (simp add: h'o f3 h2o)
    qed
    show ?thesis
      unfolding res using run t'hi t'g fr by simp
  qed
qed

lemma spec_split_disjoint:
  "distinct (inorder t) \<Longrightarrow>
   set_tree (fst (spec_split cmp x t)) \<inter> set_tree (snd (spec_split cmp x t)) = {}"
proof (induction t)
  case Leaf
  then show ?case by simp
next
  case (Node l a r)
  have sl: "set_tree (fst (spec_split cmp x l)) \<union> set_tree (snd (spec_split cmp x l)) = set_tree l"
    and sr: "set_tree (fst (spec_split cmp x r)) \<union> set_tree (snd (spec_split cmp x r)) = set_tree r"
    by (rule set_tree_spec_split)+
  have d: "a \<notin> set_tree l" "a \<notin> set_tree r" "set_tree l \<inter> set_tree r = {}"
    using Node.prems by auto
  have il: "set_tree (fst (spec_split cmp x l)) \<inter> set_tree (snd (spec_split cmp x l)) = {}"
    and ir: "set_tree (fst (spec_split cmp x r)) \<inter> set_tree (snd (spec_split cmp x r)) = {}"
    using Node by auto
  show ?case
  proof (cases "cmp x a")
    case True
    then show ?thesis using sl d il by (auto split: prod.splits)
  next
    case False
    then show ?thesis using sr d ir by (auto split: prod.splits)
  qed
qed

lemma size_spec_split:
  "size (fst (spec_split cmp x t)) + size (snd (spec_split cmp x t)) = size t"
  by (induction t) (auto split: prod.splits)

lemma insert_here_is_tree:
  assumes "is_tree h node par t" "this \<notin> set_tree t"
  shows "\<exists>h'. insert_here h this node parent cmp = Some h' \<and>
     is_tree h' (Some this) parent
       (Node (fst (spec_split cmp this t)) this (snd (spec_split cmp this t))) \<and>
     (\<forall>a. a \<notin> set_tree t \<longrightarrow> a \<noteq> this \<longrightarrow> h' a = h a)"
proof (cases t)
  case Leaf
  then have "node = None" using assms by simp
  then show ?thesis using Leaf by (simp add: insert_here_def)
next
  case (Node l x r)
  then have n: "node = Some x" using assms by simp
  obtain lo hi where sp: "spec_split cmp this t = (lo, hi)" by (cases "spec_split cmp this t")
  have T: "is_tree h (Some x) par t" using assms n by simp
  from split_is_tree[OF T assms(2) assms(2), of this cmp] sp
  obtain h1 where h1: "split h this x this this cmp = Some h1"
    and tlo: "is_tree h1 (root_ptr lo) (Some this) lo"
    and thi: "is_tree h1 (root_ptr hi) (Some this) hi"
    and fr: "\<And>a. a \<notin> set_tree t \<Longrightarrow>
        h1 a = (if a = this then (h a)\<lparr>m_left := root_ptr hi, m_right := root_ptr lo\<rparr> else h a)"
    by auto
  have sub: "set_tree lo \<subseteq> set_tree t" "set_tree hi \<subseteq> set_tree t"
    using set_tree_spec_split[of cmp this t] sp by auto
  have dis: "set_tree lo \<inter> set_tree hi = {}"
    using spec_split_disjoint[OF is_tree_distinct[OF T], of cmp this] sp by simp
  have nlo: "this \<notin> set_tree lo" and nhi: "this \<notin> set_tree hi" using sub assms(2) by auto
  have h1t: "h1 this = (h this)\<lparr>m_left := root_ptr hi, m_right := root_ptr lo\<rparr>"
    using fr[OF assms(2)] by simp
  define h2 where "h2 = h1(this := (h1 this)\<lparr>m_left := m_right (h1 this),
                                                m_right := m_left (h1 this)\<rparr>)"
  define h3 where "h3 = h2(this := (h2 this)\<lparr>m_size :=
      1 + size_ptr h2 (m_left (h2 this)) + size_ptr h2 (m_right (h2 this))\<rparr>)"
  define h' where "h' = h3(this := (h3 this)\<lparr>m_parent := parent\<rparr>)"
  have run: "insert_here h this node parent cmp = Some h'"
    unfolding n insert_here_def by (simp add: h1 Let_def h'_def h3_def h2_def)
  have h2t: "h2 this = (h this)\<lparr>m_left := root_ptr lo, m_right := root_ptr hi\<rparr>"
    using h1t by (simp add: h2_def)
  have h2o: "h2 a = h1 a" if "a \<noteq> this" for a using that by (simp add: h2_def)
  have t2lo: "is_tree h2 (root_ptr lo) (Some this) lo"
    using tlo is_tree_frame[of lo h2 h1] h2o nlo by metis
  have t2hi: "is_tree h2 (root_ptr hi) (Some this) hi"
    using thi is_tree_frame[of hi h2 h1] h2o nhi by metis
  have sz: "size_ptr h2 (m_left (h2 this)) = size lo" "size_ptr h2 (m_right (h2 this)) = size hi"
    using is_tree_size[OF t2lo] is_tree_size[OF t2hi] h2t by simp_all
  have h't: "h' this = (h this)\<lparr>m_left := root_ptr lo, m_right := root_ptr hi,
      m_size := 1 + size lo + size hi, m_parent := parent\<rparr>"
    using sz h2t by (simp add: h'_def h3_def)
  have h'o: "h' a = h1 a" if "a \<noteq> this" for a using that by (simp add: h'_def h3_def h2_def)
  have t'lo: "is_tree h' (root_ptr lo) (Some this) lo"
    using tlo is_tree_frame[of lo h' h1] h'o nlo by metis
  have t'hi: "is_tree h' (root_ptr hi) (Some this) hi"
    using thi is_tree_frame[of hi h' h1] h'o nhi by metis
  have "is_tree h' (Some this) parent (Node lo this hi)"
    using t'lo t'hi h't nlo nhi dis by simp
  moreover have "h' a = h a" if "a \<notin> set_tree t" "a \<noteq> this" for a
    using that h'o fr by simp
  ultimately show ?thesis using run sp by simp
qed


lemma spec_insert_Node:
  assumes "rng g (size (Node l a r) + 1) = (k, g1)"
  shows "spec_insert cmp rng g x (Node l a r) =
     (if k = 0
      then (Node (fst (spec_split cmp x (Node l a r))) x (snd (spec_split cmp x (Node l a r))), g1)
      else if cmp x a
      then (Node (fst (spec_insert cmp rng g1 x l)) a r, snd (spec_insert cmp rng g1 x l))
      else (Node l a (fst (spec_insert cmp rng g1 x r)), snd (spec_insert cmp rng g1 x r)))"
  using assms by (simp add: case_prod_beta del: spec_split.simps)

lemma spec_insert_set:
  "set_tree (fst (spec_insert cmp rng g x t)) = insert x (set_tree t)"
proof (induction t arbitrary: g)
  case Leaf
  then show ?case by simp
next
  case (Node l a r)
  obtain k g1 where k: "rng g (size (Node l a r) + 1) = (k, g1)"
    by (cases "rng g (size (Node l a r) + 1)")
  have "set_tree (fst (spec_split cmp x (Node l a r))) \<union>
        set_tree (snd (spec_split cmp x (Node l a r))) = set_tree (Node l a r)"
    by (rule set_tree_spec_split)
  then show ?case
    unfolding spec_insert_Node[where rng=rng and g=g, OF k] using Node.IH(1)[of g1] Node.IH(2)[of g1]
    by (simp del: spec_split.simps) blast
qed

lemma spec_insert_size:
  "size (fst (spec_insert cmp rng g x t)) = size t + 1"
proof (induction t arbitrary: g)
  case Leaf
  then show ?case by simp
next
  case (Node l a r)
  obtain k g1 where k: "rng g (size (Node l a r) + 1) = (k, g1)"
    by (cases "rng g (size (Node l a r) + 1)")
  show ?case
    unfolding spec_insert_Node[where rng=rng and g=g, OF k]
    using Node.IH(1)[of g1] Node.IH(2)[of g1] size_spec_split[of cmp x "Node l a r"]
    by (simp del: spec_split.simps)
qed

lemma insert_node_is_tree:
  "is_tree h node par t \<Longrightarrow> this \<notin> set_tree t \<Longrightarrow>
   \<exists>h' c. insert_node h g this node par cmp rng =
             Some (h', snd (spec_insert cmp rng g this t), c) \<and>
     is_tree h' (Some c) par (fst (spec_insert cmp rng g this t)) \<and>
     (\<forall>a. a \<notin> set_tree t \<longrightarrow> a \<noteq> this \<longrightarrow> h' a = h a)"
proof (induction t arbitrary: h g node par)
  case Leaf
  then have n: "node = None" by simp
  from insert_here_is_tree[OF Leaf.prems, of par cmp]
  obtain h' where "insert_here h this node par cmp = Some h'"
    "is_tree h' (Some this) par (Node Leaf this Leaf)"
    "\<forall>a. a \<notin> set_tree Leaf \<longrightarrow> a \<noteq> this \<longrightarrow> h' a = h a"
    by auto
  then show ?case unfolding n by (subst insert_node.simps) auto
next
  case (Node l x r)
  let ?t = "Node l x r"
  from Node.prems have n: "node = Some x" by simp
  have T: "is_tree h (Some x) par ?t" using Node.prems n by simp
  have xt: "x \<noteq> this" and tl: "this \<notin> set_tree l" and tr: "this \<notin> set_tree r"
    using Node.prems(2) by auto
  have til: "is_tree h (m_left (h x)) (Some x) l" and tir: "is_tree h (m_right (h x)) (Some x) r"
    using T by simp_all
  have dl: "x \<notin> set_tree l" and dr: "x \<notin> set_tree r" and dlr: "set_tree l \<inter> set_tree r = {}"
    using T by simp_all
  have szx: "m_size (h x) = size ?t" using T by simp
  obtain k g1 where k: "rng g (1 + m_size (h x)) = (k, g1)" by (cases "rng g (1 + m_size (h x))")
  then have k': "rng g (size ?t + 1) = (k, g1)" using szx by (simp add: add.commute)
  show ?case
  proof (cases "k = 0")
    case True
    from insert_here_is_tree[OF Node.prems, of par cmp]
    obtain h' where h': "insert_here h this node par cmp = Some h'"
      "is_tree h' (Some this) par (Node (fst (spec_split cmp this ?t)) this (snd (spec_split cmp this ?t)))"
      "\<forall>a. a \<notin> set_tree ?t \<longrightarrow> a \<noteq> this \<longrightarrow> h' a = h a"
      by blast
    have sp: "spec_insert cmp rng g this ?t =
        (Node (fst (spec_split cmp this ?t)) this (snd (spec_split cmp this ?t)), g1)"
      unfolding spec_insert_Node[where rng=rng and g=g, OF k'] using True by simp
    have "insert_node h g this node par cmp rng = Some (h', g1, this)"
      unfolding n using k True h'(1)[unfolded n] by (subst insert_node.simps) simp
    then show ?thesis unfolding sp using h'(2,3) by simp
  next
    case False
    show ?thesis
    proof (cases "cmp this x")
      case True
      obtain l' g2 where sl: "spec_insert cmp rng g1 this l = (l', g2)"
        by (cases "spec_insert cmp rng g1 this l")
      have sp: "spec_insert cmp rng g this ?t = (Node l' x r, g2)"
        unfolding spec_insert_Node[where rng=rng and g=g, OF k'] using False True sl by simp
      from Node.IH(1)[OF til tl, of g1] sl
      obtain h1 c where h1: "insert_node h g1 this (m_left (h x)) (Some x) cmp rng = Some (h1, g2, c)"
        and t1: "is_tree h1 (Some c) (Some x) l'"
        and f1: "\<And>a. a \<notin> set_tree l \<Longrightarrow> a \<noteq> this \<Longrightarrow> h1 a = h a"
        by auto
      have sl': "set_tree l' = insert this (set_tree l)" and zl': "size l' = size l + 1"
        using spec_insert_set[of cmp rng g1 this l] spec_insert_size[of cmp rng g1 this l] sl by simp_all
      define h2 where "h2 = h1(x := (h1 x)\<lparr>m_left := Some c\<rparr>)"
      define h' where "h' = h2(x := (h2 x)\<lparr>m_size := m_size (h2 x) + 1\<rparr>)"
      have run: "insert_node h g this node par cmp rng = Some (h', g2, x)"
        unfolding n using k False True h1
        by (subst insert_node.simps) (simp add: Let_def h'_def h2_def)
      have h1x: "h1 x = h x" using f1[OF dl xt] .
      have h'x: "h' x = (h x)\<lparr>m_left := Some c, m_size := 1 + size l' + size r\<rparr>"
        using h1x szx zl' by (simp add: h'_def h2_def)
      have h'o: "h' a = h1 a" if "a \<noteq> x" for a using that by (simp add: h'_def h2_def)
      have xl': "x \<notin> set_tree l'" using sl' dl xt by simp
      have t'l: "is_tree h' (Some c) (Some x) l'"
        using t1 is_tree_frame[of l' h' h1] h'o xl' by metis
      have "\<forall>a \<in> set_tree r. h' a = h a"
      proof
        fix a assume "a \<in> set_tree r"
        then have "a \<noteq> x" "a \<notin> set_tree l" "a \<noteq> this" using dr dlr tr by auto
        then show "h' a = h a" by (simp add: h'o f1)
      qed
      then have t'r: "is_tree h' (m_right (h x)) (Some x) r"
        using tir is_tree_frame[of r h' h] by simp
      have par: "m_parent (h x) = par" using T by simp
      have "is_tree h' (Some x) par (Node l' x r)"
        using t'l t'r h'x par xl' dr sl' dlr tr by simp
      moreover have "h' a = h a" if "a \<notin> set_tree ?t" "a \<noteq> this" for a
      proof -
        have "a \<noteq> x" "a \<notin> set_tree l" using that by auto
        then show ?thesis using that by (simp add: h'o f1)
      qed
      ultimately show ?thesis unfolding sp using run by simp
    next
      case F2: False
      obtain r' g2 where sr: "spec_insert cmp rng g1 this r = (r', g2)"
        by (cases "spec_insert cmp rng g1 this r")
      have sp: "spec_insert cmp rng g this ?t = (Node l x r', g2)"
        unfolding spec_insert_Node[where rng=rng and g=g, OF k'] using False F2 sr by simp
      from Node.IH(2)[OF tir tr, of g1] sr
      obtain h1 c where h1: "insert_node h g1 this (m_right (h x)) (Some x) cmp rng = Some (h1, g2, c)"
        and t1: "is_tree h1 (Some c) (Some x) r'"
        and f1: "\<And>a. a \<notin> set_tree r \<Longrightarrow> a \<noteq> this \<Longrightarrow> h1 a = h a"
        by auto
      have sr': "set_tree r' = insert this (set_tree r)" and zr': "size r' = size r + 1"
        using spec_insert_set[of cmp rng g1 this r] spec_insert_size[of cmp rng g1 this r] sr by simp_all
      define h2 where "h2 = h1(x := (h1 x)\<lparr>m_right := Some c\<rparr>)"
      define h' where "h' = h2(x := (h2 x)\<lparr>m_size := m_size (h2 x) + 1\<rparr>)"
      have run: "insert_node h g this node par cmp rng = Some (h', g2, x)"
        unfolding n using k False F2 h1
        by (subst insert_node.simps) (simp add: Let_def h'_def h2_def)
      have h1x: "h1 x = h x" using f1[OF dr xt] .
      have h'x: "h' x = (h x)\<lparr>m_right := Some c, m_size := 1 + size l + size r'\<rparr>"
        using h1x szx zr' by (simp add: h'_def h2_def)
      have h'o: "h' a = h1 a" if "a \<noteq> x" for a using that by (simp add: h'_def h2_def)
      have xr': "x \<notin> set_tree r'" using sr' dr xt by simp
      have t'r: "is_tree h' (Some c) (Some x) r'"
        using t1 is_tree_frame[of r' h' h1] h'o xr' by metis
      have "\<forall>a \<in> set_tree l. h' a = h a"
      proof
        fix a assume "a \<in> set_tree l"
        then have "a \<noteq> x" "a \<notin> set_tree r" "a \<noteq> this" using dl dlr tl by auto
        then show "h' a = h a" by (simp add: h'o f1)
      qed
      then have t'l: "is_tree h' (m_left (h x)) (Some x) l"
        using til is_tree_frame[of l h' h] by simp
      have par: "m_parent (h x) = par" using T by simp
      have "is_tree h' (Some x) par (Node l x r')"
        using t'l t'r h'x par xr' dl sr' dlr tl by simp
      moreover have "h' a = h a" if "a \<notin> set_tree ?t" "a \<noteq> this" for a
      proof -
        have "a \<noteq> x" "a \<notin> set_tree r" using that by auto
        then show ?thesis using that by (simp add: h'o f1)
      qed
      ultimately show ?thesis unfolding sp using run by simp
    qed
  qed
qed



lemma swo_node_compare:
  "strict_weak_order lt \<Longrightarrow> strict_weak_order (node_compare lt val)"
  unfolding strict_weak_order_def node_compare_def by blast

lemma spec_split_parts:
  assumes swo: "strict_weak_order cmp"
  shows "ordered cmp t \<Longrightarrow>
     set_tree (fst (spec_split cmp x t)) = {a \<in> set_tree t. \<not> cmp x a} \<and>
     set_tree (snd (spec_split cmp x t)) = {a \<in> set_tree t. cmp x a}"
proof (induction t)
  case Leaf
  then show ?case by simp
next
  case (Node l a r)
  have IHl: "set_tree (fst (spec_split cmp x l)) = {a \<in> set_tree l. \<not> cmp x a}"
    "set_tree (snd (spec_split cmp x l)) = {a \<in> set_tree l. cmp x a}"
    and IHr: "set_tree (fst (spec_split cmp x r)) = {a \<in> set_tree r. \<not> cmp x a}"
    "set_tree (snd (spec_split cmp x r)) = {a \<in> set_tree r. cmp x a}"
    using Node by simp_all
  have la: "\<not> cmp a y" if "y \<in> set_tree l" for y using Node.prems that by simp
  have ar: "\<not> cmp y a" if "y \<in> set_tree r" for y using Node.prems that by simp
  show ?case
  proof (cases "cmp x a")
    case True
    have "cmp x y" if "y \<in> set_tree r" for y
      using ar[OF that] True swo_negtrans[OF swo, of x y a] by blast
    then show ?thesis using True IHl by (auto simp: case_prod_beta)
  next
    case False
    have "\<not> cmp x y" if "y \<in> set_tree l" for y
      using la[OF that] False swo_negtrans[OF swo, of x a y] by blast
    then show ?thesis using False IHr by (auto simp: case_prod_beta)
  qed
qed

lemma spec_split_ordered:
  "ordered cmp t \<Longrightarrow>
   ordered cmp (fst (spec_split cmp x t)) \<and> ordered cmp (snd (spec_split cmp x t))"
proof (induction t)
  case Leaf
  then show ?case by simp
next
  case (Node l a r)
  have sl: "set_tree (fst (spec_split cmp x l)) \<subseteq> set_tree l"
    "set_tree (snd (spec_split cmp x l)) \<subseteq> set_tree l"
    and sr: "set_tree (fst (spec_split cmp x r)) \<subseteq> set_tree r"
    "set_tree (snd (spec_split cmp x r)) \<subseteq> set_tree r"
    using set_tree_spec_split[of cmp x l] set_tree_spec_split[of cmp x r] by auto
  show ?case
  proof (cases "cmp x a")
    case True
    then show ?thesis using Node sl by (auto simp: case_prod_beta)
  next
    case False
    then show ?thesis using Node sr by (auto simp: case_prod_beta)
  qed
qed

lemma spec_insert_ordered:
  assumes swo: "strict_weak_order cmp"
  shows "ordered cmp t \<Longrightarrow> ordered cmp (fst (spec_insert cmp rng g x t))"
proof (induction t arbitrary: g)
  case Leaf
  then show ?case by simp
next
  case (Node l a r)
  let ?t = "Node l a r"
  obtain k g1 where k: "rng g (size ?t + 1) = (k, g1)" by (cases "rng g (size ?t + 1)")
  show ?case
  proof (cases "k = 0")
    case True
    have "\<forall>y \<in> set_tree (fst (spec_split cmp x ?t)). \<not> cmp x y"
      "\<forall>y \<in> set_tree (snd (spec_split cmp x ?t)). \<not> cmp y x"
      using spec_split_parts[OF swo Node.prems, of x] swo_asym[OF swo] by auto
    then show ?thesis
      unfolding spec_insert_Node[where rng=rng and g=g, OF k]
      using True spec_split_ordered[OF Node.prems, of x] by (simp del: spec_split.simps)
  next
    case False
    show ?thesis
    proof (cases "cmp x a")
      case True
      have "ordered cmp (fst (spec_insert cmp rng g1 x l))" using Node by simp
      moreover have "\<not> cmp a x" using True swo_asym[OF swo] by blast
      ultimately show ?thesis
        unfolding spec_insert_Node[where rng=rng and g=g, OF k]
        using False True Node.prems by (simp add: spec_insert_set)
    next
      case F2: False
      have "ordered cmp (fst (spec_insert cmp rng g1 x r))" using Node by simp
      then show ?thesis
        unfolding spec_insert_Node[where rng=rng and g=g, OF k]
        using False F2 Node.prems by (simp add: spec_insert_set)
    qed
  qed
qed


text \<open>
  C2: inserting a new node into a well-formed subtree does what the description says.
  The call returns; the store then holds, below the same parent, the tree that
  \<open>spec_insert\<close> builds with the same draws (bound: size of the visited subtree plus
  one; on a draw of 0 the subtree is split by the new node and the halves become its
  children, otherwise the insertion goes on in the child that the comparison selects,
  and an absent subtree gives the new node alone), with every size as I1 wants it, so
  with the size of each visited node one higher. Nodes outside the subtree are
  untouched. For a strict weak ordering and an ordered subtree the split puts the nodes
  not greater than the new node to the left and the greater ones to the right, and the
  result is ordered.
\<close>

theorem insert_follows_description:
  assumes "is_tree h node par t" and "this \<notin> set_tree t"
  shows "(\<exists>h' c. insert_node h g this node par cmp rng =
                  Some (h', snd (spec_insert cmp rng g this t), c) \<and>
            is_tree h' (Some c) par (fst (spec_insert cmp rng g this t)) \<and>
            (\<forall>a. a \<notin> set_tree t \<longrightarrow> a \<noteq> this \<longrightarrow> h' a = h a)) \<and>
         (strict_weak_order cmp \<longrightarrow> ordered cmp t \<longrightarrow>
            set_tree (fst (spec_split cmp this t)) = {a \<in> set_tree t. \<not> cmp this a} \<and>
            set_tree (snd (spec_split cmp this t)) = {a \<in> set_tree t. cmp this a} \<and>
            ordered cmp (fst (spec_insert cmp rng g this t)))"
proof (intro conjI impI)
  show "\<exists>h' c. insert_node h g this node par cmp rng =
                  Some (h', snd (spec_insert cmp rng g this t), c) \<and>
            is_tree h' (Some c) par (fst (spec_insert cmp rng g this t)) \<and>
            (\<forall>a. a \<notin> set_tree t \<longrightarrow> a \<noteq> this \<longrightarrow> h' a = h a)"
    using insert_node_is_tree[OF assms] .
next
  assume o: "strict_weak_order cmp" "ordered cmp t"
  show "set_tree (fst (spec_split cmp this t)) = {a \<in> set_tree t. \<not> cmp this a}"
    "set_tree (snd (spec_split cmp this t)) = {a \<in> set_tree t. cmp this a}"
    using spec_split_parts[OF o] by simp_all
  show "ordered cmp (fst (spec_insert cmp rng g this t))"
    using spec_insert_ordered[OF o] .
qed

theorem insert_follows_description_witness:
  "(\<exists>h' c. insert_node store3 7 4 (Some 2) None (node_compare (<) val3) lcg =
              Some (h', snd (spec_insert (node_compare (<) val3) lcg 7 4 tree3), c) \<and>
        is_tree h' (Some c) None (fst (spec_insert (node_compare (<) val3) lcg 7 4 tree3)) \<and>
        (\<forall>a. a \<notin> set_tree tree3 \<longrightarrow> a \<noteq> 4 \<longrightarrow> h' a = store3 a)) \<and>
   set_tree (fst (spec_split (node_compare (<) val3) 4 tree3)) =
     {a \<in> set_tree tree3. \<not> node_compare (<) val3 4 a} \<and>
   set_tree (snd (spec_split (node_compare (<) val3) 4 tree3)) =
     {a \<in> set_tree tree3. node_compare (<) val3 4 a} \<and>
   ordered (node_compare (<) val3) (fst (spec_insert (node_compare (<) val3) lcg 7 4 tree3))"
proof -
  have fresh: "4 \<notin> set_tree tree3" by (simp add: tree3_def)
  have swo: "strict_weak_order (node_compare (<) val3)"
    using swo_node_compare[OF less_strict_weak_order] .
  show ?thesis
    using insert_follows_description[OF store3_is_tree fresh,
        of 7 "node_compare (<) val3" lcg] swo tree3_ordered
    by blast
qed

section \<open>Join\<close>

lemma is_tree_upd_other: "a \<notin> set_tree t \<Longrightarrow> is_tree (h(a := v)) p par t = is_tree h p par t"
  by (rule is_tree_frame) auto

lemma is_tree_set_parent:
  "is_tree h (Some c) par t \<Longrightarrow> is_tree (h(c := (h c)\<lparr>m_parent := p\<rparr>)) (Some c) p t"
  by (cases t) (auto simp: is_tree_upd_other)

lemma spec_join_Node:
  assumes "rng g (size (Node l1 a r1) + size (Node l2 b r2)) = (k, g1)"
  shows "spec_join rng g (Node l1 a r1) (Node l2 b r2) =
     (if k < size (Node l1 a r1)
      then (Node l1 a (fst (spec_join rng g1 r1 (Node l2 b r2))),
            snd (spec_join rng g1 r1 (Node l2 b r2)))
      else (Node (fst (spec_join rng g1 (Node l1 a r1) l2)) b r2,
            snd (spec_join rng g1 (Node l1 a r1) l2)))"
  using assms by (simp add: case_prod_beta)

lemma spec_join_set:
  "set_tree (fst (spec_join rng g l r)) = set_tree l \<union> set_tree r"
proof (induction rng g l r rule: spec_join.induct)
  case (1 rng g t)
  then show ?case by simp
next
  case (2 rng g l a r)
  then show ?case by simp
next
  case (3 rng g l1 a r1 l2 b r2)
  obtain k g1 where k: "rng g (size (Node l1 a r1) + size (Node l2 b r2)) = (k, g1)"
    by (cases "rng g (size (Node l1 a r1) + size (Node l2 b r2))")
  show ?case
  proof (cases "k < size (Node l1 a r1)")
    case True
    then show ?thesis
      unfolding spec_join_Node[where rng=rng and g=g, OF k]
      using "3.IH"(1)[OF k[symmetric] True] by auto
  next
    case False
    then show ?thesis
      unfolding spec_join_Node[where rng=rng and g=g, OF k]
      using "3.IH"(2)[OF k[symmetric] False] by auto
  qed
qed

lemma spec_join_size:
  "size (fst (spec_join rng g l r)) = size l + size r"
proof (induction rng g l r rule: spec_join.induct)
  case (1 rng g t)
  then show ?case by simp
next
  case (2 rng g l a r)
  then show ?case by simp
next
  case (3 rng g l1 a r1 l2 b r2)
  obtain k g1 where k: "rng g (size (Node l1 a r1) + size (Node l2 b r2)) = (k, g1)"
    by (cases "rng g (size (Node l1 a r1) + size (Node l2 b r2))")
  show ?case
  proof (cases "k < size (Node l1 a r1)")
    case True
    then show ?thesis
      unfolding spec_join_Node[where rng=rng and g=g, OF k]
      using "3.IH"(1)[OF k[symmetric] True] by simp
  next
    case False
    then show ?thesis
      unfolding spec_join_Node[where rng=rng and g=g, OF k]
      using "3.IH"(2)[OF k[symmetric] False] by simp
  qed
qed

lemma spec_join_ordered:
  "ordered cmp l \<Longrightarrow> ordered cmp r \<Longrightarrow> (\<forall>x \<in> set_tree l. \<forall>y \<in> set_tree r. \<not> cmp y x) \<Longrightarrow>
   ordered cmp (fst (spec_join rng g l r))"
proof (induction rng g l r rule: spec_join.induct)
  case (1 rng g t)
  then show ?case by simp
next
  case (2 rng g l a r)
  then show ?case by simp
next
  case (3 rng g l1 a r1 l2 b r2)
  obtain k g1 where k: "rng g (size (Node l1 a r1) + size (Node l2 b r2)) = (k, g1)"
    by (cases "rng g (size (Node l1 a r1) + size (Node l2 b r2))")
  show ?case
  proof (cases "k < size (Node l1 a r1)")
    case True
    have "ordered cmp (fst (spec_join rng g1 r1 (Node l2 b r2)))"
      using "3.IH"(1)[OF k[symmetric] True] "3.prems" by auto
    moreover have "set_tree (fst (spec_join rng g1 r1 (Node l2 b r2))) =
        set_tree r1 \<union> set_tree (Node l2 b r2)" by (rule spec_join_set)
    ultimately show ?thesis
      unfolding spec_join_Node[where rng=rng and g=g, OF k]
      using True "3.prems" by auto
  next
    case False
    have "ordered cmp (fst (spec_join rng g1 (Node l1 a r1) l2))"
      using "3.IH"(2)[OF k[symmetric] False] "3.prems" by auto
    moreover have "set_tree (fst (spec_join rng g1 (Node l1 a r1) l2)) =
        set_tree (Node l1 a r1) \<union> set_tree l2" by (rule spec_join_set)
    ultimately show ?thesis
      unfolding spec_join_Node[where rng=rng and g=g, OF k]
      using False "3.prems" by auto
  qed
qed


lemma is_tree_root_parent: "is_tree h p par t \<Longrightarrow> is_tree h p (root_parent h t) t"
  by (cases t) (auto simp: root_parent_def)

lemma join_is_tree:
  "is_tree h pl parl tlo \<Longrightarrow> is_tree h pg parg thi \<Longrightarrow> set_tree tlo \<inter> set_tree thi = {} \<Longrightarrow>
   \<exists>h'. join h g pl pg rng =
          Some (h', snd (spec_join rng g tlo thi), root_ptr (fst (spec_join rng g tlo thi))) \<and>
        is_tree h' (root_ptr (fst (spec_join rng g tlo thi)))
          (root_parent h (fst (spec_join rng g tlo thi))) (fst (spec_join rng g tlo thi)) \<and>
        (\<forall>x. x \<notin> set_tree tlo \<longrightarrow> x \<notin> set_tree thi \<longrightarrow> h' x = h x)"
proof (induction rng g tlo thi arbitrary: h pl pg parl parg rule: spec_join.induct)
  case (1 rng g t)
  then have "pl = None" by simp
  moreover have "pg = root_ptr t" using 1 is_tree_root_ptr by blast
  ultimately show ?case
    using is_tree_root_parent[OF "1.prems"(2)] by (subst join.simps) simp
next
  case (2 rng g l a r)
  then have "pg = None" "pl = Some a" by simp_all
  then show ?case
    using is_tree_root_parent[OF "2.prems"(1)] by (subst join.simps) simp
next
  case (3 rng g l1 a r1 l2 b r2)
  let ?tl = "Node l1 a r1" and ?tg = "Node l2 b r2"
  have pl: "pl = Some a" and pg: "pg = Some b" using "3.prems" by simp_all
  have Tl: "is_tree h (Some a) parl ?tl" and Tg: "is_tree h (Some b) parg ?tg"
    using "3.prems" pl pg by simp_all
  have sza: "m_size (h a) = size ?tl" and szb: "m_size (h b) = size ?tg"
    using Tl Tg by simp_all
  have ab: "a \<noteq> b" using "3.prems"(3) by auto
  have dis: "set_tree ?tl \<inter> set_tree ?tg = {}" using "3.prems"(3) .
  obtain k g1 where k: "rng g (size ?tl + size ?tg) = (k, g1)"
    by (cases "rng g (size ?tl + size ?tg)")
  have kh: "rng g (m_size (h a) + m_size (h b)) = (k, g1)" using k sza szb by simp
  show ?case
  proof (cases "k < size ?tl")
    case True
    define j where "j = fst (spec_join rng g1 r1 ?tg)"
    define g2 where "g2 = snd (spec_join rng g1 r1 ?tg)"
    have sp: "spec_join rng g ?tl ?tg = (Node l1 a j, g2)"
      unfolding spec_join_Node[where rng=rng and g=g, OF k] using True by (simp add: j_def g2_def)
    have sj: "set_tree j = set_tree r1 \<union> set_tree ?tg" unfolding j_def by (rule spec_join_set)
    have zj: "size j = size r1 + size ?tg" unfolding j_def by (rule spec_join_size)
    define h1 where "h1 = h(a := (h a)\<lparr>m_size := m_size (h a) + size_ptr h pg\<rparr>)"
    have h1a: "h1 a = (h a)\<lparr>m_size := size ?tl + size ?tg\<rparr>"
      using sza szb pg by (simp add: h1_def size_ptr_def)
    have ar1: "a \<notin> set_tree r1" and al1: "a \<notin> set_tree l1" and atg: "a \<notin> set_tree ?tg"
      using Tl dis by auto
    have t1r: "is_tree h1 (m_right (h1 a)) (Some a) r1"
      using Tl ar1 by (simp add: h1_def is_tree_upd_other)
    have t1g: "is_tree h1 (Some b) parg ?tg"
      using Tg atg unfolding h1_def by (subst is_tree_upd_other) simp_all
    have d1: "set_tree r1 \<inter> set_tree ?tg = {}" using dis by auto
    from "3.IH"(1)[OF k[symmetric] True t1r t1g d1]
    obtain h2 where h2: "join h1 g1 (m_right (h1 a)) (Some b) rng = Some (h2, g2, root_ptr j)"
      and t2: "is_tree h2 (root_ptr j) (root_parent h1 j) j"
      and f2: "\<And>x. x \<notin> set_tree r1 \<Longrightarrow> x \<notin> set_tree ?tg \<Longrightarrow> h2 x = h1 x"
      unfolding j_def g2_def by blast
    have "j \<noteq> Leaf" using zj by auto
    then obtain c where c: "root_ptr j = Some c" by (cases j) auto
    then have cj: "c \<in> set_tree j" by (cases j) auto
    have ca: "c \<noteq> a" using cj sj ar1 atg by auto
    have h2a: "h2 a = h1 a" using f2[OF ar1 atg] .
    define h3 where "h3 = h2(a := (h2 a)\<lparr>m_right := root_ptr j\<rparr>)"
    define h' where "h' = h3(c := (h3 c)\<lparr>m_parent := Some a\<rparr>)"
    have ka: "k < m_size (h a)" using True sza by simp
    have "join h g (Some a) (Some b) rng =
        Option.bind (join h1 g1 (m_right (h1 a)) (Some b) rng)
          (\<lambda>(h2, g2, j).
             let h3 = h2(a := (h2 a)\<lparr>m_right := j\<rparr>)
             in (case m_right (h3 a) of
                   None \<Rightarrow> None
                 | Some c \<Rightarrow> Some (h3(c := (h3 c)\<lparr>m_parent := Some a\<rparr>), g2, Some a)))"
      by (subst join.simps) (simp only: option.case kh prod.case ka if_True Let_def h1_def pg)
    then have run: "join h g pl pg rng = Some (h', g2, Some a)"
      unfolding pl pg h2 by (simp add: c h'_def h3_def)
    have aj: "a \<notin> set_tree j" using sj ar1 atg by auto
    have t3: "is_tree h3 (Some c) (root_parent h1 j) j"
      using t2 c aj by (simp add: h3_def is_tree_upd_other)
    have t'j: "is_tree h' (Some c) (Some a) j"
      unfolding h'_def using is_tree_set_parent[OF t3] .
    have h'a: "h' a = (h a)\<lparr>m_size := size ?tl + size ?tg, m_right := Some c\<rparr>"
      using ca h2a h1a c by (simp add: h'_def h3_def)
    have "\<forall>x \<in> set_tree l1. h' x = h x"
    proof
      fix x assume x: "x \<in> set_tree l1"
      then have "x \<noteq> a" "x \<notin> set_tree r1" "x \<notin> set_tree ?tg" using Tl dis by auto
      moreover from this have "x \<noteq> c" using cj sj by auto
      ultimately show "h' x = h x" by (simp add: h'_def h3_def f2 h1_def)
    qed
    then have t'l: "is_tree h' (m_left (h a)) (Some a) l1"
      using Tl is_tree_frame[of l1 h' h] by simp
    have disj: "set_tree l1 \<inter> set_tree j = {}" using sj Tl dis by auto
    have "is_tree h' (Some a) parl (Node l1 a j)"
      using t'l t'j h'a Tl al1 aj disj zj by simp
    moreover have "root_parent h (Node l1 a j) = parl" using Tl by (simp add: root_parent_def)
    moreover have "h' x = h x" if "x \<notin> set_tree ?tl" "x \<notin> set_tree ?tg" for x
    proof -
      have "x \<noteq> a" "x \<notin> set_tree r1" using that by auto
      moreover have "x \<noteq> c" using cj sj that by auto
      ultimately show ?thesis using that by (simp add: h'_def h3_def f2 h1_def)
    qed
    ultimately show ?thesis unfolding sp using run by simp
  next
    case False
    define j where "j = fst (spec_join rng g1 ?tl l2)"
    define g2 where "g2 = snd (spec_join rng g1 ?tl l2)"
    have sp: "spec_join rng g ?tl ?tg = (Node j b r2, g2)"
      unfolding spec_join_Node[where rng=rng and g=g, OF k] using False by (simp add: j_def g2_def)
    have sj: "set_tree j = set_tree ?tl \<union> set_tree l2" unfolding j_def by (rule spec_join_set)
    have zj: "size j = size ?tl + size l2" unfolding j_def by (rule spec_join_size)
    define h1 where "h1 = h(b := (h b)\<lparr>m_size := m_size (h b) + size_ptr h pl\<rparr>)"
    have h1b: "h1 b = (h b)\<lparr>m_size := size ?tg + size ?tl\<rparr>"
      using sza szb pl by (simp add: h1_def size_ptr_def)
    have br2: "b \<notin> set_tree r2" and bl2: "b \<notin> set_tree l2" and btl: "b \<notin> set_tree ?tl"
      using Tg dis by auto
    have t1l: "is_tree h1 (m_left (h1 b)) (Some b) l2"
      using Tg bl2 by (simp add: h1_def is_tree_upd_other)
    have t1t: "is_tree h1 (Some a) parl ?tl"
      using Tl btl unfolding h1_def by (subst is_tree_upd_other) simp_all
    have d1: "set_tree ?tl \<inter> set_tree l2 = {}" using dis by auto
    from "3.IH"(2)[OF k[symmetric] False t1t t1l d1]
    obtain h2 where h2: "join h1 g1 (Some a) (m_left (h1 b)) rng = Some (h2, g2, root_ptr j)"
      and t2: "is_tree h2 (root_ptr j) (root_parent h1 j) j"
      and f2: "\<And>x. x \<notin> set_tree ?tl \<Longrightarrow> x \<notin> set_tree l2 \<Longrightarrow> h2 x = h1 x"
      unfolding j_def g2_def by blast
    have "j \<noteq> Leaf" using zj by auto
    then obtain c where c: "root_ptr j = Some c" by (cases j) auto
    then have cj: "c \<in> set_tree j" by (cases j) auto
    have cb: "c \<noteq> b" using cj sj bl2 btl by auto
    have h2b: "h2 b = h1 b" using f2[OF btl bl2] .
    define h3 where "h3 = h2(b := (h2 b)\<lparr>m_left := root_ptr j\<rparr>)"
    define h' where "h' = h3(c := (h3 c)\<lparr>m_parent := Some b\<rparr>)"
    have ka: "\<not> k < m_size (h a)" using False sza by simp
    have "join h g (Some a) (Some b) rng =
        Option.bind (join h1 g1 (Some a) (m_left (h1 b)) rng)
          (\<lambda>(h2, g2, j).
             let h3 = h2(b := (h2 b)\<lparr>m_left := j\<rparr>)
             in (case m_left (h3 b) of
                   None \<Rightarrow> None
                 | Some c \<Rightarrow> Some (h3(c := (h3 c)\<lparr>m_parent := Some b\<rparr>), g2, Some b)))"
      by (subst join.simps) (simp only: option.case kh prod.case ka if_False Let_def h1_def pl)
    then have run: "join h g pl pg rng = Some (h', g2, Some b)"
      unfolding pl pg h2 by (simp add: c h'_def h3_def)
    have bj: "b \<notin> set_tree j" using sj bl2 btl by auto
    have t3: "is_tree h3 (Some c) (root_parent h1 j) j"
      using t2 c bj by (simp add: h3_def is_tree_upd_other)
    have t'j: "is_tree h' (Some c) (Some b) j"
      unfolding h'_def using is_tree_set_parent[OF t3] .
    have h'b: "h' b = (h b)\<lparr>m_size := size ?tg + size ?tl, m_left := Some c\<rparr>"
      using cb h2b h1b c by (simp add: h'_def h3_def)
    have "\<forall>x \<in> set_tree r2. h' x = h x"
    proof
      fix x assume x: "x \<in> set_tree r2"
      then have "x \<noteq> b" "x \<notin> set_tree l2" "x \<notin> set_tree ?tl" using Tg dis by auto
      moreover from this have "x \<noteq> c" using cj sj by auto
      ultimately show "h' x = h x" by (simp add: h'_def h3_def f2 h1_def)
    qed
    then have t'r: "is_tree h' (m_right (h b)) (Some b) r2"
      using Tg is_tree_frame[of r2 h' h] by simp
    have disj: "set_tree j \<inter> set_tree r2 = {}" using sj Tg dis by auto
    have "is_tree h' (Some b) parg (Node j b r2)"
      using t'r t'j h'b Tg br2 bj disj zj by simp
    moreover have "root_parent h (Node j b r2) = parg" using Tg by (simp add: root_parent_def)
    moreover have "h' x = h x" if "x \<notin> set_tree ?tl" "x \<notin> set_tree ?tg" for x
    proof -
      have "x \<noteq> b" "x \<notin> set_tree l2" using that by auto
      moreover have "x \<noteq> c" using cj sj that by auto
      ultimately show ?thesis using that by (simp add: h'_def h3_def f2 h1_def)
    qed
    ultimately show ?thesis unfolding sp using run by simp
  qed
qed



text \<open>
  C3: joining two well-formed, ordered subtrees that share no node, every node of
  \<open>lesser\<close> not greater than any node of \<open>greater\<close>. The call returns; the store then
  holds the tree that \<open>spec_join\<close> builds with the same draws (bound: the sum of the
  two sizes; a draw below the size of \<open>lesser\<close> makes the root of \<open>lesser\<close> the root
  and joins \<open>greater\<close> into its right child, any other draw does the same on the other
  side), the parent pointer of the root being the one it had. The result is ordered and
  its nodes are those of the two trees. With an absent argument the other is returned
  and nothing changes.
\<close>

theorem join_follows_description:
  assumes "is_tree h lesser parl tlo" and "is_tree h greater' parg thi"
    and "set_tree tlo \<inter> set_tree thi = {}"
    and "ordered cmp tlo" and "ordered cmp thi"
    and "\<forall>x \<in> set_tree tlo. \<forall>y \<in> set_tree thi. \<not> cmp y x"
  shows "(\<exists>h'. join h g lesser greater' rng =
               Some (h', snd (spec_join rng g tlo thi), root_ptr (fst (spec_join rng g tlo thi))) \<and>
             is_tree h' (root_ptr (fst (spec_join rng g tlo thi)))
               (root_parent h (fst (spec_join rng g tlo thi))) (fst (spec_join rng g tlo thi)) \<and>
             (\<forall>x. x \<notin> set_tree tlo \<longrightarrow> x \<notin> set_tree thi \<longrightarrow> h' x = h x)) \<and>
         ordered cmp (fst (spec_join rng g tlo thi)) \<and>
         set_tree (fst (spec_join rng g tlo thi)) = set_tree tlo \<union> set_tree thi \<and>
         join h g None greater' rng = Some (h, g, greater') \<and>
         join h g lesser None rng = Some (h, g, lesser)"
proof (intro conjI)
  show "\<exists>h'. join h g lesser greater' rng =
               Some (h', snd (spec_join rng g tlo thi), root_ptr (fst (spec_join rng g tlo thi))) \<and>
             is_tree h' (root_ptr (fst (spec_join rng g tlo thi)))
               (root_parent h (fst (spec_join rng g tlo thi))) (fst (spec_join rng g tlo thi)) \<and>
             (\<forall>x. x \<notin> set_tree tlo \<longrightarrow> x \<notin> set_tree thi \<longrightarrow> h' x = h x)"
    using join_is_tree[OF assms(1,2,3)] .
  show "ordered cmp (fst (spec_join rng g tlo thi))"
    using spec_join_ordered[OF assms(4,5,6)] .
  show "set_tree (fst (spec_join rng g tlo thi)) = set_tree tlo \<union> set_tree thi"
    by (rule spec_join_set)
  show "join h g None greater' rng = Some (h, g, greater')"
    by (subst join.simps) simp
  show "join h g lesser None rng = Some (h, g, lesser)"
    by (subst join.simps) (simp split: option.splits)
qed

lemma store3_left: "is_tree store3 (Some 1) (Some 2) (Node Leaf 1 Leaf)"
  by (simp add: store3_def)

lemma store3_right: "is_tree store3 (Some 3) (Some 2) (Node Leaf 3 Leaf)"
  by (simp add: store3_def)

theorem join_follows_description_witness:
  "(\<exists>h'. join store3 1 (Some 1) (Some 3) lcg =
          Some (h', snd (spec_join lcg 1 (Node Leaf 1 Leaf) (Node Leaf 3 Leaf)),
                root_ptr (fst (spec_join lcg 1 (Node Leaf 1 Leaf) (Node Leaf 3 Leaf)))) \<and>
        is_tree h' (root_ptr (fst (spec_join lcg 1 (Node Leaf 1 Leaf) (Node Leaf 3 Leaf))))
          (root_parent store3 (fst (spec_join lcg 1 (Node Leaf 1 Leaf) (Node Leaf 3 Leaf))))
          (fst (spec_join lcg 1 (Node Leaf 1 Leaf) (Node Leaf 3 Leaf))) \<and>
        (\<forall>x. x \<notin> set_tree (Node Leaf 1 Leaf) \<longrightarrow> x \<notin> set_tree (Node Leaf 3 Leaf) \<longrightarrow>
             h' x = store3 x)) \<and>
   ordered (node_compare (<) val3) (fst (spec_join lcg 1 (Node Leaf 1 Leaf) (Node Leaf 3 Leaf))) \<and>
   set_tree (fst (spec_join lcg 1 (Node Leaf 1 Leaf) (Node Leaf 3 Leaf))) =
     set_tree (Node Leaf 1 Leaf) \<union> set_tree (Node Leaf 3 Leaf) \<and>
   fst (spec_join lcg 1 (Node Leaf 1 Leaf) (Node Leaf 3 Leaf)) = Node Leaf 1 (Node Leaf 3 Leaf)"
proof -
  have d: "set_tree (Node Leaf (1::nat) Leaf) \<inter> set_tree (Node Leaf 3 Leaf) = {}" by simp
  have o1: "ordered (node_compare (<) val3) (Node Leaf 1 Leaf)"
    and o3: "ordered (node_compare (<) val3) (Node Leaf 3 Leaf)" by simp_all
  have le: "\<forall>x \<in> set_tree (Node Leaf 1 Leaf). \<forall>y \<in> set_tree (Node Leaf 3 Leaf).
      \<not> node_compare (<) val3 y x"
    by (simp add: node_compare_def val3_def)
  have ev: "fst (spec_join lcg 1 (Node Leaf 1 Leaf) (Node Leaf 3 Leaf)) = Node Leaf 1 (Node Leaf 3 Leaf)"
    by (simp add: lcg_def numeral_2_eq_2[symmetric])
  show ?thesis
    using join_follows_description[OF store3_left store3_right d o1 o3 le, of 1 lcg] ev
    by blast
qed


section \<open>Erase\<close>

lemma erase_steps:
  "erase h g this rng =
     Option.bind (join h g (m_left (h this)) (m_right (h this)) rng)
       (\<lambda>(h1, g1, child).
          case m_parent (h this) of
            Some p \<Rightarrow>
              Option.bind
                (erase_loop (erase_replace (erase_unlink h1 this (Some p) child) this p child) p)
                (\<lambda>(h7, top). Some (h7, g1, Some top))
          | None \<Rightarrow> Some (erase_unlink h1 this None child, g1, child))"
  by (cases "m_parent (h this)")
     (simp_all add: erase_def erase_unlink_def erase_replace_def Let_def)

lemma node_cleared:
  "(n::node)\<lparr>m_parent := None, m_left := None, m_right := None, m_size := k\<rparr> =
   \<lparr>m_left = None, m_right = None, m_parent = None, m_size = k\<rparr>"
  by (cases n) simp

lemma erase_unlink_is_tree:
  assumes T: "is_tree h (Some a) pa (Node la a ra)"
  shows "\<exists>h1. join h g (m_left (h a)) (m_right (h a)) rng =
            Some (h1, snd (spec_join rng g la ra), root_ptr (fst (spec_join rng g la ra))) \<and>
          is_tree (erase_unlink h1 a par (root_ptr (fst (spec_join rng g la ra))))
            (root_ptr (fst (spec_join rng g la ra))) par (fst (spec_join rng g la ra)) \<and>
          (\<forall>y. y \<notin> set_tree (Node la a ra) \<longrightarrow>
             erase_unlink h1 a par (root_ptr (fst (spec_join rng g la ra))) y = h y) \<and>
          erase_unlink h1 a par (root_ptr (fst (spec_join rng g la ra))) a =
            \<lparr>m_left = None, m_right = None, m_parent = None, m_size = 1\<rparr>"
proof -
  define j where "j = fst (spec_join rng g la ra)"
  have tl: "is_tree h (m_left (h a)) (Some a) la" and tr: "is_tree h (m_right (h a)) (Some a) ra"
    and dis: "set_tree la \<inter> set_tree ra = {}" and al: "a \<notin> set_tree la" and ar: "a \<notin> set_tree ra"
    using T by simp_all
  from join_is_tree[OF tl tr dis, of g rng]
  obtain h1 where h1: "join h g (m_left (h a)) (m_right (h a)) rng =
        Some (h1, snd (spec_join rng g la ra), root_ptr j)"
    and t1: "is_tree h1 (root_ptr j) (root_parent h j) j"
    and f1: "\<And>x. x \<notin> set_tree la \<Longrightarrow> x \<notin> set_tree ra \<Longrightarrow> h1 x = h x"
    unfolding j_def by blast
  have sj: "set_tree j = set_tree la \<union> set_tree ra" unfolding j_def by (rule spec_join_set)
  have aj: "a \<notin> set_tree j" using sj al ar by simp
  define h3 where "h3 = h1(a := (h1 a)\<lparr>m_parent := None, m_left := None, m_right := None,
      m_size := 1\<rparr>)"
  have h3a: "h3 a = \<lparr>m_left = None, m_right = None, m_parent = None, m_size = 1\<rparr>"
    unfolding h3_def using node_cleared[where n="h1 a" and k=1] by simp
  have t3: "is_tree h3 (root_ptr j) (root_parent h j) j"
    using t1 aj by (simp add: h3_def is_tree_upd_other)
  let ?h4 = "erase_unlink h1 a par (root_ptr j)"
  have h4: "?h4 = (case root_ptr j of Some c \<Rightarrow> h3(c := (h3 c)\<lparr>m_parent := par\<rparr>) | None \<Rightarrow> h3)"
    by (cases "root_ptr j") (simp_all add: erase_unlink_def h3_def Let_def)
  have t4: "is_tree ?h4 (root_ptr j) par j"
  proof (cases j)
    case Leaf
    then show ?thesis by simp
  next
    case (Node jl c jr)
    then have c: "root_ptr j = Some c" by simp
    have e: "?h4 = h3(c := (h3 c)\<lparr>m_parent := par\<rparr>)" using h4 c by simp
    show ?thesis unfolding e unfolding c using is_tree_set_parent[OF t3[unfolded c], of par] .
  qed
  have f4: "?h4 y = h y" if "y \<notin> set_tree (Node la a ra)" for y
  proof -
    have y: "y \<noteq> a" "y \<notin> set_tree la" "y \<notin> set_tree ra" using that by auto
    then have "y \<notin> set_tree j" using sj by simp
    then have "root_ptr j \<noteq> Some y" by (cases j) auto
    then show ?thesis unfolding h4 using y by (auto simp: h3_def f1 split: option.splits)
  qed
  have a4: "?h4 a = \<lparr>m_left = None, m_right = None, m_parent = None, m_size = 1\<rparr>"
  proof -
    have "root_ptr j \<noteq> Some a" using aj by (cases j) auto
    then show ?thesis unfolding h4 using h3a by (auto split: option.splits)
  qed
  show ?thesis using h1 t4 f4 a4 unfolding j_def by blast
qed


lemma spec_erase_size:
  "a \<in> set_tree t \<Longrightarrow> size (fst (spec_erase rng g a t)) + 1 = size t"
proof (induction t)
  case Leaf
  then show ?case by simp
next
  case (Node l x r)
  show ?case
  proof (cases "x = a")
    case True
    then show ?thesis using spec_join_size[of rng g l r] by simp
  next
    case False
    show ?thesis
    proof (cases "a \<in> set_tree l")
      case True
      then show ?thesis using False Node.IH(1) by (simp add: case_prod_beta)
    next
      case F2: False
      then have "a \<in> set_tree r" using Node.prems False by simp
      then show ?thesis using False F2 Node.IH(2) by (simp add: case_prod_beta)
    qed
  qed
qed

lemma spec_erase_set:
  "distinct (inorder t) \<Longrightarrow> a \<in> set_tree t \<Longrightarrow>
   set_tree (fst (spec_erase rng g a t)) = set_tree t - {a}"
proof (induction t)
  case Leaf
  then show ?case by simp
next
  case (Node l x r)
  have d: "x \<notin> set_tree l" "x \<notin> set_tree r" "set_tree l \<inter> set_tree r = {}"
    "distinct (inorder l)" "distinct (inorder r)"
    using Node.prems(1) by auto
  show ?case
  proof (cases "x = a")
    case True
    then show ?thesis using spec_join_set[of rng g l r] d by auto
  next
    case False
    show ?thesis
    proof (cases "a \<in> set_tree l")
      case True
      then have "set_tree (fst (spec_erase rng g a l)) = set_tree l - {a}"
        using Node.IH(1) d by simp
      then show ?thesis using False True d by (auto simp: case_prod_beta)
    next
      case F2: False
      then have ar: "a \<in> set_tree r" using Node.prems False by simp
      then have "set_tree (fst (spec_erase rng g a r)) = set_tree r - {a}"
        using Node.IH(2) d by simp
      then show ?thesis using False F2 ar d by (auto simp: case_prod_beta)
    qed
  qed
qed

lemma erase_left_child:
  assumes T: "is_tree h (Some x) par (Node (Node la a ra) x r)"
  shows "\<exists>h6. erase h g a rng =
            Option.bind (erase_loop h6 x)
              (\<lambda>(h7, top). Some (h7, snd (spec_join rng g la ra), Some top)) \<and>
          is_tree h6 (Some x) par (Node (fst (spec_join rng g la ra)) x r) \<and>
          (\<forall>y. y \<notin> set_tree (Node (Node la a ra) x r) \<longrightarrow> h6 y = h y) \<and>
          h6 a = \<lparr>m_left = None, m_right = None, m_parent = None, m_size = 1\<rparr> \<and>
          m_size (h6 x) + 1 = m_size (h x)"
proof -
  define j where "j = fst (spec_join rng g la ra)"
  let ?sa = "Node la a ra"
  have la: "m_left (h x) = Some a" and Ta: "is_tree h (Some a) (Some x) ?sa"
    and Tr: "is_tree h (m_right (h x)) (Some x) r"
    and xa: "x \<noteq> a" and xsa: "x \<notin> set_tree ?sa" and xr: "x \<notin> set_tree r"
    and dis: "set_tree ?sa \<inter> set_tree r = {}"
    and szx: "m_size (h x) = 1 + size ?sa + size r" and px: "m_parent (h x) = par"
    using T by auto
  have pa: "m_parent (h a) = Some x" using Ta by simp
  from erase_unlink_is_tree[OF Ta, of g rng "Some x"]
  obtain h1 where h1: "join h g (m_left (h a)) (m_right (h a)) rng =
        Some (h1, snd (spec_join rng g la ra), root_ptr j)"
    and t4: "is_tree (erase_unlink h1 a (Some x) (root_ptr j)) (root_ptr j) (Some x) j"
    and f4: "\<And>y. y \<notin> set_tree ?sa \<Longrightarrow> erase_unlink h1 a (Some x) (root_ptr j) y = h y"
    and a4: "erase_unlink h1 a (Some x) (root_ptr j) a =
        \<lparr>m_left = None, m_right = None, m_parent = None, m_size = 1\<rparr>"
    unfolding j_def by blast
  define h4 where "h4 = erase_unlink h1 a (Some x) (root_ptr j)"
  define h6 where "h6 = erase_replace h4 a x (root_ptr j)"
  have h4x: "h4 x = h x" unfolding h4_def using f4[OF xsa] .
  have h6x: "h6 x = (h x)\<lparr>m_left := root_ptr j, m_size := m_size (h x) - 1\<rparr>"
    using h4x la by (simp add: h6_def erase_replace_def Let_def)
  have h6o: "h6 y = h4 y" if "y \<noteq> x" for y
    using that by (simp add: h6_def erase_replace_def Let_def)
  have run: "erase h g a rng =
      Option.bind (erase_loop h6 x) (\<lambda>(h7, top). Some (h7, snd (spec_join rng g la ra), Some top))"
    unfolding erase_steps h1 using pa by (simp add: h6_def h4_def)
  have sj: "set_tree j = set_tree la \<union> set_tree ra" and zj: "size j = size la + size ra"
    unfolding j_def by (rule spec_join_set, rule spec_join_size)
  have xj: "x \<notin> set_tree j" using sj xsa by simp
  have "\<forall>y \<in> set_tree j. h6 y = h4 y" using xj h6o by metis
  then have t6j: "is_tree h6 (root_ptr j) (Some x) j"
    using t4 is_tree_frame[of j h6 h4] by (simp add: h4_def)
  have "\<forall>y \<in> set_tree r. h6 y = h y"
  proof
    fix y assume "y \<in> set_tree r"
    then have "y \<noteq> x" "y \<notin> set_tree ?sa" using xr dis by auto
    then show "h6 y = h y" using h6o f4 by (simp add: h4_def)
  qed
  then have t6r: "is_tree h6 (m_right (h x)) (Some x) r"
    using Tr is_tree_frame[of r h6 h] by simp
  have "is_tree h6 (Some x) par (Node j x r)"
    using t6j t6r h6x szx px zj xj xr sj dis by auto
  moreover have "h6 y = h y" if "y \<notin> set_tree (Node ?sa x r)" for y
  proof -
    have "y \<noteq> x" "y \<notin> set_tree ?sa" using that by auto
    then show ?thesis using h6o f4 by (simp add: h4_def)
  qed
  moreover have "h6 a = \<lparr>m_left = None, m_right = None, m_parent = None, m_size = 1\<rparr>"
    using h6o[of a] xa a4 by (simp add: h4_def)
  moreover have "m_size (h6 x) + 1 = m_size (h x)" using h6x szx by simp
  ultimately show ?thesis using run unfolding j_def by blast
qed

lemma erase_right_child:
  assumes T: "is_tree h (Some x) par (Node l x (Node la a ra))"
  shows "\<exists>h6. erase h g a rng =
            Option.bind (erase_loop h6 x)
              (\<lambda>(h7, top). Some (h7, snd (spec_join rng g la ra), Some top)) \<and>
          is_tree h6 (Some x) par (Node l x (fst (spec_join rng g la ra))) \<and>
          (\<forall>y. y \<notin> set_tree (Node l x (Node la a ra)) \<longrightarrow> h6 y = h y) \<and>
          h6 a = \<lparr>m_left = None, m_right = None, m_parent = None, m_size = 1\<rparr> \<and>
          m_size (h6 x) + 1 = m_size (h x)"
proof -
  define j where "j = fst (spec_join rng g la ra)"
  let ?sa = "Node la a ra"
  have ra: "m_right (h x) = Some a" and Ta: "is_tree h (Some a) (Some x) ?sa"
    and Tl: "is_tree h (m_left (h x)) (Some x) l"
    and xa: "x \<noteq> a" and xsa: "x \<notin> set_tree ?sa" and xl: "x \<notin> set_tree l"
    and dis: "set_tree l \<inter> set_tree ?sa = {}"
    and szx: "m_size (h x) = 1 + size l + size ?sa" and px: "m_parent (h x) = par"
    using T by auto
  have "a \<notin> set_tree l" using dis by auto
  then have nl: "m_left (h x) \<noteq> Some a" using is_tree_ptr_in[OF Tl] by blast
  have pa: "m_parent (h a) = Some x" using Ta by simp
  from erase_unlink_is_tree[OF Ta, of g rng "Some x"]
  obtain h1 where h1: "join h g (m_left (h a)) (m_right (h a)) rng =
        Some (h1, snd (spec_join rng g la ra), root_ptr j)"
    and t4: "is_tree (erase_unlink h1 a (Some x) (root_ptr j)) (root_ptr j) (Some x) j"
    and f4: "\<And>y. y \<notin> set_tree ?sa \<Longrightarrow> erase_unlink h1 a (Some x) (root_ptr j) y = h y"
    and a4: "erase_unlink h1 a (Some x) (root_ptr j) a =
        \<lparr>m_left = None, m_right = None, m_parent = None, m_size = 1\<rparr>"
    unfolding j_def by blast
  define h4 where "h4 = erase_unlink h1 a (Some x) (root_ptr j)"
  define h6 where "h6 = erase_replace h4 a x (root_ptr j)"
  have h4x: "h4 x = h x" unfolding h4_def using f4[OF xsa] .
  have h6x: "h6 x = (h x)\<lparr>m_right := root_ptr j, m_size := m_size (h x) - 1\<rparr>"
    using h4x nl by (simp add: h6_def erase_replace_def Let_def)
  have h6o: "h6 y = h4 y" if "y \<noteq> x" for y
    using that by (simp add: h6_def erase_replace_def Let_def)
  have run: "erase h g a rng =
      Option.bind (erase_loop h6 x) (\<lambda>(h7, top). Some (h7, snd (spec_join rng g la ra), Some top))"
    unfolding erase_steps h1 using pa by (simp add: h6_def h4_def)
  have sj: "set_tree j = set_tree la \<union> set_tree ra" and zj: "size j = size la + size ra"
    unfolding j_def by (rule spec_join_set, rule spec_join_size)
  have xj: "x \<notin> set_tree j" using sj xsa by simp
  have "\<forall>y \<in> set_tree j. h6 y = h4 y" using xj h6o by metis
  then have t6j: "is_tree h6 (root_ptr j) (Some x) j"
    using t4 is_tree_frame[of j h6 h4] by (simp add: h4_def)
  have "\<forall>y \<in> set_tree l. h6 y = h y"
  proof
    fix y assume "y \<in> set_tree l"
    then have "y \<noteq> x" "y \<notin> set_tree ?sa" using xl dis by auto
    then show "h6 y = h y" using h6o f4 by (simp add: h4_def)
  qed
  then have t6l: "is_tree h6 (m_left (h x)) (Some x) l"
    using Tl is_tree_frame[of l h6 h] by simp
  have "is_tree h6 (Some x) par (Node l x j)"
    using t6j t6l h6x szx px zj xj xl sj dis by auto
  moreover have "h6 y = h y" if "y \<notin> set_tree (Node l x ?sa)" for y
  proof -
    have "y \<noteq> x" "y \<notin> set_tree ?sa" using that by auto
    then show ?thesis using h6o f4 by (simp add: h4_def)
  qed
  moreover have "h6 a = \<lparr>m_left = None, m_right = None, m_parent = None, m_size = 1\<rparr>"
    using h6o[of a] xa a4 by (simp add: h4_def)
  moreover have "m_size (h6 x) + 1 = m_size (h x)" using h6x szx by simp
  ultimately show ?thesis using run unfolding j_def by blast
qed


lemma ancestors_subset: "ancestors t a \<subseteq> set_tree t"
  by (induction t) auto

lemma erase_up:
  "is_tree h (Some b) par s \<Longrightarrow> a \<in> set_tree s \<Longrightarrow> a \<noteq> b \<Longrightarrow>
   \<exists>h'. erase h g a rng =
          Option.bind (erase_loop h' b)
            (\<lambda>(h7, top). Some (h7, snd (spec_erase rng g a s), Some top)) \<and>
        is_tree h' (Some b) par (fst (spec_erase rng g a s)) \<and>
        (\<forall>y. y \<notin> set_tree s \<longrightarrow> h' y = h y) \<and>
        h' a = \<lparr>m_left = None, m_right = None, m_parent = None, m_size = 1\<rparr> \<and>
        (\<forall>y \<in> ancestors s a. m_size (h' y) + 1 = m_size (h y))"
proof (induction s arbitrary: b par)
  case Leaf
  then show ?case by simp
next
  case (Node l x r)
  let ?s = "Node l x r"
  from Node.prems have b: "b = x" by simp
  have T: "is_tree h (Some x) par ?s" using Node.prems b by simp
  have xa: "x \<noteq> a" using Node.prems b by simp
  have Tl: "is_tree h (m_left (h x)) (Some x) l" and Tr: "is_tree h (m_right (h x)) (Some x) r"
    and xl: "x \<notin> set_tree l" and xr: "x \<notin> set_tree r" and dis: "set_tree l \<inter> set_tree r = {}"
    and szx: "m_size (h x) = 1 + size l + size r" and px: "m_parent (h x) = par"
    using T by simp_all
  show ?case
  proof (cases "a \<in> set_tree l")
    case True
    then obtain ll c lr where l: "l = Node ll c lr" by (cases l) auto
    have lc: "m_left (h x) = Some c" and Tc: "is_tree h (Some c) (Some x) l"
      using Tl l by auto
    have se: "spec_erase rng g a ?s =
        (Node (fst (spec_erase rng g a l)) x r, snd (spec_erase rng g a l))"
      using xa True by (simp add: case_prod_beta)
    have an: "ancestors ?s a = insert x (ancestors l a)" using xa True by simp
    show ?thesis
    proof (cases "c = a")
      case True
      have "is_tree h (Some x) par (Node (Node ll a lr) x r)" using T l True by simp
      from erase_left_child[OF this, of g rng] l True xa
      show ?thesis unfolding b se an by simp
    next
      case False
      from Node.IH(1)[OF Tc True False[symmetric]]
      obtain h1 where run1: "erase h g a rng =
          Option.bind (erase_loop h1 c)
            (\<lambda>(h7, top). Some (h7, snd (spec_erase rng g a l), Some top))"
        and t1: "is_tree h1 (Some c) (Some x) (fst (spec_erase rng g a l))"
        and f1: "\<And>y. y \<notin> set_tree l \<Longrightarrow> h1 y = h y"
        and a1: "h1 a = \<lparr>m_left = None, m_right = None, m_parent = None, m_size = 1\<rparr>"
        and z1: "\<And>y. y \<in> ancestors l a \<Longrightarrow> m_size (h1 y) + 1 = m_size (h y)"
        by blast
      define l' where "l' = fst (spec_erase rng g a l)"
      have sl': "set_tree l' = set_tree l - {a}"
        unfolding l'_def using spec_erase_set[OF is_tree_distinct[OF Tc] True] .
      have zl': "size l' + 1 = size l" unfolding l'_def using spec_erase_size[OF True] .
      define h' where "h' = h1(x := (h1 x)\<lparr>m_size := m_size (h1 x) - 1\<rparr>)"
      have pc: "m_parent (h1 c) = Some x" using is_tree_root[OF t1] by simp
      have "erase_loop h1 c = erase_loop h' x"
        using pc by (subst erase_loop.simps) (simp add: h'_def)
      then have run: "erase h g a rng =
          Option.bind (erase_loop h' x)
            (\<lambda>(h7, top). Some (h7, snd (spec_erase rng g a l), Some top))"
        using run1 by simp
      have h1x: "h1 x = h x" using f1[OF xl] .
      have h'x: "h' x = (h x)\<lparr>m_size := size l' + size r + 1\<rparr>"
        using h1x szx zl' by (simp add: h'_def)
      have h'o: "h' y = h1 y" if "y \<noteq> x" for y using that by (simp add: h'_def)
      have xl': "x \<notin> set_tree l'" using sl' xl by simp
      have t'l: "is_tree h' (Some c) (Some x) l'"
        using t1 xl' unfolding h'_def l'_def by (simp add: is_tree_upd_other)
      have "\<forall>y \<in> set_tree r. h' y = h y"
      proof
        fix y assume "y \<in> set_tree r"
        then have "y \<noteq> x" "y \<notin> set_tree l" using xr dis by auto
        then show "h' y = h y" by (simp add: h'o f1)
      qed
      then have t'r: "is_tree h' (m_right (h x)) (Some x) r"
        using Tr is_tree_frame[of r h' h] by simp
      have t': "is_tree h' (Some x) par (Node l' x r)"
        using t'l t'r h'x lc px xl' xr sl' dis by auto
      have f': "h' y = h y" if "y \<notin> set_tree ?s" for y
      proof -
        have "y \<noteq> x" "y \<notin> set_tree l" using that by auto
        then show ?thesis by (simp add: h'o f1)
      qed
      have a': "h' a = \<lparr>m_left = None, m_right = None, m_parent = None, m_size = 1\<rparr>"
        using h'o[of a] xa a1 by simp
      have z': "m_size (h' y) + 1 = m_size (h y)" if "y \<in> ancestors ?s a" for y
      proof (cases "y = x")
        case True
        then show ?thesis using h'x szx zl' by simp
      next
        case False
        then have "y \<in> ancestors l a" using that an by simp
        then show ?thesis using z1 h'o[OF False] by simp
      qed
      have e1: "snd (spec_erase rng g a ?s) = snd (spec_erase rng g a l)"
        and e2: "fst (spec_erase rng g a ?s) = Node l' x r"
        using se by (simp_all add: l'_def)
      show ?thesis
        unfolding b e1 e2 by (rule exI[of _ h']) (use run t' f' a' z' in blast)
    qed
  next
    case False
    then have ar: "a \<in> set_tree r" using Node.prems xa by simp
    then obtain rl c rr where r: "r = Node rl c rr" by (cases r) auto
    have rc: "m_right (h x) = Some c" and Tc: "is_tree h (Some c) (Some x) r"
      using Tr r by auto
    have se: "spec_erase rng g a ?s =
        (Node l x (fst (spec_erase rng g a r)), snd (spec_erase rng g a r))"
      using xa False by (simp add: case_prod_beta)
    have an: "ancestors ?s a = insert x (ancestors r a)" using xa False ar by simp
    show ?thesis
    proof (cases "c = a")
      case True
      have "is_tree h (Some x) par (Node l x (Node rl a rr))" using T r True by simp
      from erase_right_child[OF this, of g rng] r True xa
      show ?thesis unfolding b se an by simp
    next
      case F2: False
      from Node.IH(2)[OF Tc ar F2[symmetric]]
      obtain h1 where run1: "erase h g a rng =
          Option.bind (erase_loop h1 c)
            (\<lambda>(h7, top). Some (h7, snd (spec_erase rng g a r), Some top))"
        and t1: "is_tree h1 (Some c) (Some x) (fst (spec_erase rng g a r))"
        and f1: "\<And>y. y \<notin> set_tree r \<Longrightarrow> h1 y = h y"
        and a1: "h1 a = \<lparr>m_left = None, m_right = None, m_parent = None, m_size = 1\<rparr>"
        and z1: "\<And>y. y \<in> ancestors r a \<Longrightarrow> m_size (h1 y) + 1 = m_size (h y)"
        by blast
      define r' where "r' = fst (spec_erase rng g a r)"
      have sr': "set_tree r' = set_tree r - {a}"
        unfolding r'_def using spec_erase_set[OF is_tree_distinct[OF Tc] ar] .
      have zr': "size r' + 1 = size r" unfolding r'_def using spec_erase_size[OF ar] .
      define h' where "h' = h1(x := (h1 x)\<lparr>m_size := m_size (h1 x) - 1\<rparr>)"
      have pc: "m_parent (h1 c) = Some x" using is_tree_root[OF t1] by simp
      have "erase_loop h1 c = erase_loop h' x"
        using pc by (subst erase_loop.simps) (simp add: h'_def)
      then have run: "erase h g a rng =
          Option.bind (erase_loop h' x)
            (\<lambda>(h7, top). Some (h7, snd (spec_erase rng g a r), Some top))"
        using run1 by simp
      have h1x: "h1 x = h x" using f1[OF xr] .
      have h'x: "h' x = (h x)\<lparr>m_size := size l + size r' + 1\<rparr>"
        using h1x szx zr' by (simp add: h'_def)
      have h'o: "h' y = h1 y" if "y \<noteq> x" for y using that by (simp add: h'_def)
      have xr': "x \<notin> set_tree r'" using sr' xr by simp
      have t'r: "is_tree h' (Some c) (Some x) r'"
        using t1 xr' unfolding h'_def r'_def by (simp add: is_tree_upd_other)
      have "\<forall>y \<in> set_tree l. h' y = h y"
      proof
        fix y assume "y \<in> set_tree l"
        then have "y \<noteq> x" "y \<notin> set_tree r" using xl dis by auto
        then show "h' y = h y" by (simp add: h'o f1)
      qed
      then have t'l: "is_tree h' (m_left (h x)) (Some x) l"
        using Tl is_tree_frame[of l h' h] by simp
      have t': "is_tree h' (Some x) par (Node l x r')"
        using t'l t'r h'x rc px xr' xl sr' dis by auto
      have f': "h' y = h y" if "y \<notin> set_tree ?s" for y
      proof -
        have "y \<noteq> x" "y \<notin> set_tree r" using that by auto
        then show ?thesis by (simp add: h'o f1)
      qed
      have a': "h' a = \<lparr>m_left = None, m_right = None, m_parent = None, m_size = 1\<rparr>"
        using h'o[of a] xa a1 by simp
      have z': "m_size (h' y) + 1 = m_size (h y)" if "y \<in> ancestors ?s a" for y
      proof (cases "y = x")
        case True
        then show ?thesis using h'x szx zr' by simp
      next
        case F3: False
        then have "y \<in> ancestors r a" using that an by simp
        then show ?thesis using z1 h'o[OF F3] by simp
      qed
      have e1: "snd (spec_erase rng g a ?s) = snd (spec_erase rng g a r)"
        and e2: "fst (spec_erase rng g a ?s) = Node l x r'"
        using se by (simp_all add: r'_def)
      show ?thesis
        unfolding b e1 e2 by (rule exI[of _ h']) (use run t' f' a' z' in blast)
    qed
  qed
qed

lemma erase_is_tree:
  assumes T: "is_tree h (Some rt) None t" and a: "a \<in> set_tree t"
  shows "\<exists>h'. erase h g a rng =
            Some (h', snd (spec_erase rng g a t), root_ptr (fst (spec_erase rng g a t))) \<and>
          is_tree h' (root_ptr (fst (spec_erase rng g a t))) None (fst (spec_erase rng g a t)) \<and>
          (\<forall>y. y \<notin> set_tree t \<longrightarrow> h' y = h y) \<and>
          h' a = \<lparr>m_left = None, m_right = None, m_parent = None, m_size = 1\<rparr> \<and>
          (\<forall>y \<in> ancestors t a. m_size (h' y) + 1 = m_size (h y))"
proof (cases "a = rt")
  case True
  obtain la ra where t: "t = Node la a ra" using T True by (cases t) auto
  have Ta: "is_tree h (Some a) None (Node la a ra)" using T True t by simp
  then have pa: "m_parent (h a) = None" by simp
  from erase_unlink_is_tree[OF Ta, of g rng None]
  obtain h1 where h1: "join h g (m_left (h a)) (m_right (h a)) rng =
        Some (h1, snd (spec_join rng g la ra), root_ptr (fst (spec_join rng g la ra)))"
    and rest: "is_tree (erase_unlink h1 a None (root_ptr (fst (spec_join rng g la ra))))
            (root_ptr (fst (spec_join rng g la ra))) None (fst (spec_join rng g la ra))"
      "\<forall>y. y \<notin> set_tree (Node la a ra) \<longrightarrow>
             erase_unlink h1 a None (root_ptr (fst (spec_join rng g la ra))) y = h y"
      "erase_unlink h1 a None (root_ptr (fst (spec_join rng g la ra))) a =
            \<lparr>m_left = None, m_right = None, m_parent = None, m_size = 1\<rparr>"
    by blast
  have "erase h g a rng = Some (erase_unlink h1 a None (root_ptr (fst (spec_join rng g la ra))),
      snd (spec_join rng g la ra), root_ptr (fst (spec_join rng g la ra)))"
    unfolding erase_steps h1 using pa by simp
  then show ?thesis using rest unfolding t by simp
next
  case False
  from erase_up[OF T a False, of g rng]
  obtain h' where run: "erase h g a rng =
          Option.bind (erase_loop h' rt)
            (\<lambda>(h7, top). Some (h7, snd (spec_erase rng g a t), Some top))"
    and t': "is_tree h' (Some rt) None (fst (spec_erase rng g a t))"
    and rest: "\<forall>y. y \<notin> set_tree t \<longrightarrow> h' y = h y"
      "h' a = \<lparr>m_left = None, m_right = None, m_parent = None, m_size = 1\<rparr>"
      "\<forall>y \<in> ancestors t a. m_size (h' y) + 1 = m_size (h y)"
    by blast
  have "m_parent (h' rt) = None" using is_tree_root[OF t'] by simp
  then have "erase_loop h' rt = Some (h', rt)" by (subst erase_loop.simps) simp
  then have "erase h g a rng = Some (h', snd (spec_erase rng g a t), Some rt)"
    using run by simp
  moreover have "root_ptr (fst (spec_erase rng g a t)) = Some rt"
    using is_tree_root_ptr[OF t'] by simp
  ultimately show ?thesis using t' rest by auto
qed


text \<open>
  C4: erasing a node of a well-formed tree whose root has no parent. The call returns
  the root of the tree that \<open>spec_erase\<close> describes: the node replaced by the join of
  its children, hanging in the child slot the node had below its former parent, and
  this tree is well-formed in the new store. The size of every node on the path from
  the root to the former parent is one lower, no node outside the tree is touched, and
  the erased node has no links and size 1. When the node was the root, the join result
  is returned, otherwise the root is the old one.
\<close>

theorem erase_follows_description:
  assumes "is_tree h (Some rt) None t" and "a \<in> set_tree t"
  shows "(\<exists>h'. erase h g a rng =
               Some (h', snd (spec_erase rng g a t), root_ptr (fst (spec_erase rng g a t))) \<and>
             is_tree h' (root_ptr (fst (spec_erase rng g a t))) None (fst (spec_erase rng g a t)) \<and>
             (\<forall>y. y \<notin> set_tree t \<longrightarrow> h' y = h y) \<and>
             h' a = \<lparr>m_left = None, m_right = None, m_parent = None, m_size = 1\<rparr> \<and>
             (\<forall>y \<in> ancestors t a. m_size (h' y) + 1 = m_size (h y))) \<and>
         (a = rt \<longrightarrow> spec_erase rng g a t = spec_join rng g (left t) (right t)) \<and>
         (a \<noteq> rt \<longrightarrow> root_ptr (fst (spec_erase rng g a t)) = Some rt)"
proof (intro conjI impI)
  show "\<exists>h'. erase h g a rng =
               Some (h', snd (spec_erase rng g a t), root_ptr (fst (spec_erase rng g a t))) \<and>
             is_tree h' (root_ptr (fst (spec_erase rng g a t))) None (fst (spec_erase rng g a t)) \<and>
             (\<forall>y. y \<notin> set_tree t \<longrightarrow> h' y = h y) \<and>
             h' a = \<lparr>m_left = None, m_right = None, m_parent = None, m_size = 1\<rparr> \<and>
             (\<forall>y \<in> ancestors t a. m_size (h' y) + 1 = m_size (h y))"
    using erase_is_tree[OF assms] .
next
  assume "a = rt"
  then show "spec_erase rng g a t = spec_join rng g (left t) (right t)"
    using assms(1) by (cases t) auto
next
  assume "a \<noteq> rt"
  then show "root_ptr (fst (spec_erase rng g a t)) = Some rt"
    using assms(1) by (cases t) (auto simp: case_prod_beta)
qed

theorem erase_follows_description_witness:
  "(\<exists>h'. erase store3 1 1 lcg =
          Some (h', snd (spec_erase lcg 1 1 tree3), root_ptr (fst (spec_erase lcg 1 1 tree3))) \<and>
        is_tree h' (root_ptr (fst (spec_erase lcg 1 1 tree3))) None (fst (spec_erase lcg 1 1 tree3)) \<and>
        (\<forall>y. y \<notin> set_tree tree3 \<longrightarrow> h' y = store3 y) \<and>
        h' 1 = \<lparr>m_left = None, m_right = None, m_parent = None, m_size = 1\<rparr> \<and>
        (\<forall>y \<in> ancestors tree3 1. m_size (h' y) + 1 = m_size (store3 y))) \<and>
   root_ptr (fst (spec_erase lcg 1 1 tree3)) = Some 2 \<and>
   fst (spec_erase lcg 1 1 tree3) = Node Leaf 2 (Node Leaf 3 Leaf) \<and>
   ancestors tree3 1 = {2}"
proof -
  have a: "1 \<in> set_tree tree3" by (simp add: tree3_def)
  have ne: "(1::nat) \<noteq> 2" by simp
  have ev: "fst (spec_erase lcg 1 1 tree3) = Node Leaf 2 (Node Leaf 3 Leaf)"
    "ancestors tree3 1 = {2}"
    by (simp_all add: tree3_def)
  show ?thesis
    using erase_follows_description[OF store3_is_tree a, of 1 lcg] ne ev by blast
qed


section \<open>The set\<close>

lemma reach_in_tree: "reach h p x \<Longrightarrow> is_tree h p par t \<Longrightarrow> x \<in> set_tree t"
proof (induction arbitrary: par t rule: reach.induct)
  case (reach_here a)
  then show ?case by (cases t) auto
next
  case (reach_left a x)
  then show ?case by (cases t) auto
next
  case (reach_right a x)
  then show ?case by (cases t) auto
qed

lemma in_tree_reach: "is_tree h p par t \<Longrightarrow> x \<in> set_tree t \<Longrightarrow> reach h p x"
proof (induction t arbitrary: p par)
  case Leaf
  then show ?case by simp
next
  case (Node l a r)
  then have p: "p = Some a" by simp
  consider "x = a" | "x \<in> set_tree l" | "x \<in> set_tree r" using Node.prems(2) by auto
  then show ?case
  proof cases
    case 1
    then show ?thesis unfolding p by (simp add: reach_here)
  next
    case 2
    have "is_tree h (m_left (h a)) (Some a) l" using Node.prems(1) by simp
    then have "reach h (m_left (h a)) x" using Node.IH(1) 2 by blast
    then show ?thesis unfolding p by (rule reach_left)
  next
    case 3
    have "is_tree h (m_right (h a)) (Some a) r" using Node.prems(1) by simp
    then have "reach h (m_right (h a)) x" using Node.IH(2) 3 by blast
    then show ?thesis unfolding p by (rule reach_right)
  qed
qed

lemma reach_is_tree: "is_tree h p par t \<Longrightarrow> reach h p x \<longleftrightarrow> x \<in> set_tree t"
  using reach_in_tree in_tree_reach by blast

lemma I1_is_tree: "is_tree h p par t \<Longrightarrow> x \<in> set_tree t \<Longrightarrow> I1 h x"
proof (induction t arbitrary: p par)
  case Leaf
  then show ?case by simp
next
  case (Node l a r)
  have "I1 h a"
    using Node.prems(1) is_tree_size[of h "m_left (h a)" "Some a" l]
      is_tree_size[of h "m_right (h a)" "Some a" r]
    by (simp add: I1_def)
  then show ?case using Node by auto
qed

lemma I2_is_tree: "is_tree h p par t \<Longrightarrow> x \<in> set_tree t \<Longrightarrow> I2 h x"
proof (induction t arbitrary: p par)
  case Leaf
  then show ?case by simp
next
  case (Node l a r)
  have "m_parent (h c) = Some a" if "m_left (h a) = Some c" for c
    using Node.prems(1) that is_tree_root[of h c "Some a" l] by simp
  moreover have "m_parent (h c) = Some a" if "m_right (h a) = Some c" for c
    using Node.prems(1) that is_tree_root[of h c "Some a" r] by simp
  ultimately have "I2 h a" by (simp add: I2_def split: option.splits)
  then show ?case using Node by auto
qed

lemma I3_is_tree:
  "is_tree h p par t \<Longrightarrow> ordered cmp t \<Longrightarrow> x \<in> set_tree t \<Longrightarrow> I3 h cmp x"
proof (induction t arbitrary: p par)
  case Leaf
  then show ?case by simp
next
  case (Node l a r)
  have tl: "is_tree h (m_left (h a)) (Some a) l" and tr: "is_tree h (m_right (h a)) (Some a) r"
    using Node.prems(1) by simp_all
  have "I3 h cmp a"
    using Node.prems(2) reach_is_tree[OF tl] reach_is_tree[OF tr] by (simp add: I3_def)
  then show ?case using Node by auto
qed

lemma ordered_cong:
  "(\<And>a b. a \<in> set_tree t \<Longrightarrow> b \<in> set_tree t \<Longrightarrow> cmp a b = cmp' a b) \<Longrightarrow>
   ordered cmp t = ordered cmp' t"
proof (induction t)
  case Leaf
  then show ?case by simp
next
  case (Node l a r)
  have "ordered cmp l = ordered cmp' l" "ordered cmp r = ordered cmp' r"
    using Node by auto
  moreover have "(\<forall>x \<in> set_tree l. \<not> cmp a x) = (\<forall>x \<in> set_tree l. \<not> cmp' a x)"
    using Node.prems by auto
  moreover have "(\<forall>y \<in> set_tree r. \<not> cmp y a) = (\<forall>y \<in> set_tree r. \<not> cmp' y a)"
    using Node.prems by auto
  ultimately show ?case by simp
qed

lemma spec_erase_subset: "set_tree (fst (spec_erase rng g a t)) \<subseteq> set_tree t"
proof (induction t)
  case Leaf
  then show ?case by simp
next
  case (Node l x r)
  then show ?case using spec_join_set[of rng g l r] by (auto simp: case_prod_beta)
qed

lemma spec_erase_ordered:
  assumes swo: "strict_weak_order cmp"
  shows "ordered cmp t \<Longrightarrow> ordered cmp (fst (spec_erase rng g a t))"
proof (induction t)
  case Leaf
  then show ?case by simp
next
  case (Node l x r)
  have ol: "ordered cmp l" and or: "ordered cmp r"
    and lx: "\<forall>y \<in> set_tree l. \<not> cmp x y" and xr: "\<forall>y \<in> set_tree r. \<not> cmp y x"
    using Node.prems by simp_all
  show ?case
  proof (cases "x = a")
    case True
    have "\<forall>u \<in> set_tree l. \<forall>v \<in> set_tree r. \<not> cmp v u"
      using lx xr swo_negtrans[OF swo] by blast
    then show ?thesis using True spec_join_ordered[OF ol or] by simp
  next
    case False
    show ?thesis
    proof (cases "a \<in> set_tree l")
      case True
      then show ?thesis
        using False Node spec_erase_subset[of rng g a l] by (auto simp: case_prod_beta)
    next
      case F2: False
      then show ?thesis
        using False Node spec_erase_subset[of rng g a r] by (auto simp: case_prod_beta)
    qed
  qed
qed

lemma tree_insert_is_tree:
  assumes T: "is_tree h (Some tree) None (Node t tree Leaf)"
    and n: "node \<notin> set_tree t" "node \<noteq> tree"
  shows "\<exists>h'. tree_insert h g tree node cmp rng = Some (h', snd (spec_insert cmp rng g node t)) \<and>
     is_tree h' (Some tree) None (Node (fst (spec_insert cmp rng g node t)) tree Leaf) \<and>
     (\<forall>a. a \<notin> set_tree t \<longrightarrow> a \<noteq> node \<longrightarrow> a \<noteq> tree \<longrightarrow> h' a = h a)"
proof -
  have tt: "tree \<notin> set_tree t" and Tt: "is_tree h (m_left (h tree)) (Some tree) t"
    and r: "m_right (h tree) = None" and p: "m_parent (h tree) = None"
    and sz: "m_size (h tree) = 1 + size t"
    using T by simp_all
  define h1 where "h1 = h(tree := (h tree)\<lparr>m_size := m_size (h tree) + 1\<rparr>)"
  have T1: "is_tree h1 (m_left (h1 tree)) (Some tree) t"
    using Tt tt by (simp add: h1_def is_tree_upd_other)
  define t' where "t' = fst (spec_insert cmp rng g node t)"
  from insert_node_is_tree[OF T1 n(1), of g cmp rng]
  obtain h2 c where h2: "insert_node h1 g node (m_left (h1 tree)) (Some tree) cmp rng =
        Some (h2, snd (spec_insert cmp rng g node t), c)"
    and T2: "is_tree h2 (Some c) (Some tree) t'"
    and f2: "\<And>a. a \<notin> set_tree t \<Longrightarrow> a \<noteq> node \<Longrightarrow> h2 a = h1 a"
    unfolding t'_def by blast
  define h' where "h' = h2(tree := (h2 tree)\<lparr>m_left := Some c\<rparr>)"
  have run: "tree_insert h g tree node cmp rng = Some (h', snd (spec_insert cmp rng g node t))"
    unfolding tree_insert_def Let_def h1_def[symmetric] h2 by (simp add: h'_def)
  have st': "set_tree t' = insert node (set_tree t)" and zt': "size t' = size t + 1"
    unfolding t'_def by (rule spec_insert_set, rule spec_insert_size)
  have tt': "tree \<notin> set_tree t'" using st' tt n(2) by simp
  have h2t: "h2 tree = h1 tree" using f2[OF tt] n(2) by simp
  have h't: "h' tree = (h tree)\<lparr>m_size := m_size (h tree) + 1, m_left := Some c\<rparr>"
    using h2t by (simp add: h'_def h1_def)
  have T': "is_tree h' (Some c) (Some tree) t'"
    using T2 tt' by (simp add: h'_def is_tree_upd_other)
  have "is_tree h' (Some tree) None (Node t' tree Leaf)"
    using T' h't r p sz zt' tt' by simp
  moreover have "h' a = h a" if "a \<notin> set_tree t" "a \<noteq> node" "a \<noteq> tree" for a
    using that f2 by (simp add: h'_def h1_def)
  ultimately show ?thesis using run unfolding t'_def by blast
qed

lemma set_holds_parts:
  assumes "set_holds s t"
  shows "is_tree (store s) (root s) (Some (m_tree s)) t" "m_tree s \<notin> set_tree t"
    "m_size (store s (m_tree s)) = 1 + size t"
  using assms by (simp_all add: set_holds_def root_def)

lemma set_find_holds:
  assumes swo: "strict_weak_order (m_comp s)" and H: "set_holds s t"
  shows "\<exists>r. set_find s key = Some r \<and>
     (if \<exists>a \<in> set_tree t. equiv_for (m_comp s) (node_value s a) key
      then \<exists>a \<in> set_tree t. r = Some a \<and> equiv_for (m_comp s) (node_value s a) key
      else r = Some (m_tree s))"
  unfolding set_find_def
  using find_node_is_tree[OF swo set_holds_parts(1)[OF H], of "node_value s" key "Some (m_tree s)"] H
  by (simp add: set_holds_def)

lemma equiv_for_trans:
  assumes "strict_weak_order lt" "equiv_for lt x k" "equiv_for lt y k"
  shows "equiv_for lt x y"
  using assms swo_negtrans[OF assms(1)] unfolding equiv_for_def by blast

lemma set_insert_holds:
  assumes swo: "strict_weak_order (m_comp s)" and H: "set_holds s t"
    and fresh: "new \<notin> set_tree t" "new \<noteq> m_tree s"
  shows "\<exists>s' pos ins. set_insert s new v rng = Some (s', pos, ins) \<and>
     m_comp s' = m_comp s \<and> m_tree s' = m_tree s \<and>
     (if \<exists>a \<in> set_tree t. equiv_for (m_comp s) (node_value s a) v
      then ins = False \<and> s' = s \<and>
           (\<exists>a \<in> set_tree t. pos = Some a \<and> equiv_for (m_comp s) (node_value s a) v)
      else ins = True \<and> pos = Some new \<and> node_value s' = (node_value s)(new := v) \<and>
           set_holds s' (fst (spec_insert (node_compare (m_comp s) ((node_value s)(new := v)))
                                rng (m_rng s) new t)))"
proof -
  from set_find_holds[OF swo H, of v] obtain r where r: "set_find s v = Some r"
    and rr: "if \<exists>a \<in> set_tree t. equiv_for (m_comp s) (node_value s a) v
      then \<exists>a \<in> set_tree t. r = Some a \<and> equiv_for (m_comp s) (node_value s a) v
      else r = Some (m_tree s)" by blast
  have tt: "m_tree s \<notin> set_tree t" using set_holds_parts(2)[OF H] .
  show ?thesis
  proof (cases "\<exists>a \<in> set_tree t. equiv_for (m_comp s) (node_value s a) v")
    case True
    then obtain a where a: "a \<in> set_tree t" "r = Some a" "equiv_for (m_comp s) (node_value s a) v"
      using rr by auto
    then have "r \<noteq> Some (m_tree s)" using tt by auto
    then have "set_insert s new v rng = Some (s, r, False)"
      using r by (simp add: set_insert_def)
    then show ?thesis using True a by auto
  next
    case False
    then have re: "r = Some (m_tree s)" using rr by simp
    let ?tree = "m_tree s"
    define h1 where "h1 = (store s)(new :=
        \<lparr>m_left = None, m_right = None, m_parent = None, m_size = 1\<rparr>)"
    define val1 where "val1 = (node_value s)(new := v)"
    define cmp where "cmp = node_compare (m_comp s) val1"
    define t' where "t' = fst (spec_insert cmp rng (m_rng s) new t)"
    have T: "is_tree (store s) (Some ?tree) None (Node t ?tree Leaf)"
      using H by (simp add: set_holds_def)
    have T1: "is_tree h1 (Some ?tree) None (Node t ?tree Leaf)"
      unfolding h1_def using T fresh by (subst is_tree_upd_other) simp_all
    from tree_insert_is_tree[OF T1 fresh, of "m_rng s" cmp rng]
    obtain h2 where h2: "tree_insert h1 (m_rng s) ?tree new cmp rng =
          Some (h2, snd (spec_insert cmp rng (m_rng s) new t))"
      and T2: "is_tree h2 (Some ?tree) None (Node t' ?tree Leaf)"
      unfolding t'_def by blast
    define s' where "s' = s\<lparr>store := h2, node_value := val1,
        m_rng := snd (spec_insert cmp rng (m_rng s) new t),
        m_node_alloc := insert new (m_node_alloc s)\<rparr>"
    have "set_insert s new v rng =
        Option.bind (tree_insert h1 (m_rng s) ?tree new cmp rng)
          (\<lambda>(h2, g2).
             Some (s\<lparr>store := h2, node_value := val1, m_rng := g2,
                      m_node_alloc := insert new (m_node_alloc s)\<rparr>,
                   Some new, True))"
      by (simp only: set_insert_def r re option.case simp_thms if_False Let_def
          h1_def val1_def cmp_def)
    then have run: "set_insert s new v rng = Some (s', Some new, True)"
      unfolding h2 by (simp add: s'_def)
    have swo1: "strict_weak_order cmp" unfolding cmp_def by (rule swo_node_compare[OF swo])
    have o: "ordered (node_compare (m_comp s) (node_value s)) t"
      using H by (simp add: set_holds_def)
    have "ordered cmp t = ordered (node_compare (m_comp s) (node_value s)) t"
    proof (rule ordered_cong)
      fix a b assume "a \<in> set_tree t" "b \<in> set_tree t"
      then have "a \<noteq> new" "b \<noteq> new" using fresh by auto
      then show "cmp a b = node_compare (m_comp s) (node_value s) a b"
        by (simp add: cmp_def node_compare_def val1_def)
    qed
    then have o1: "ordered cmp t" using o by simp
    have o': "ordered cmp t'" unfolding t'_def using spec_insert_ordered[OF swo1 o1] .
    have st': "set_tree t' = insert new (set_tree t)" unfolding t'_def by (rule spec_insert_set)
    have dk: "\<forall>a \<in> set_tree t. \<forall>b \<in> set_tree t.
        equiv_for (m_comp s) (node_value s a) (node_value s b) \<longrightarrow> a = b"
      using H by (simp add: set_holds_def)
    have sym: "equiv_for (m_comp s) x y = equiv_for (m_comp s) y x" for x y
      by (auto simp: equiv_for_def)
    have dk': "\<forall>a \<in> set_tree t'. \<forall>b \<in> set_tree t'.
        equiv_for (m_comp s) (val1 a) (val1 b) \<longrightarrow> a = b"
    proof (intro ballI impI)
      fix a b assume ab: "a \<in> set_tree t'" "b \<in> set_tree t'"
        and e: "equiv_for (m_comp s) (val1 a) (val1 b)"
      show "a = b"
      proof (cases "a = new")
        case True
        show ?thesis
        proof (cases "b = new")
          case True
          then show ?thesis using \<open>a = new\<close> by simp
        next
          case F: False
          then have "b \<in> set_tree t" using ab st' by simp
          moreover have "equiv_for (m_comp s) (node_value s b) v"
            using e True F sym by (simp add: val1_def)
          ultimately show ?thesis using False by blast
        qed
      next
        case Fa: False
        then have at: "a \<in> set_tree t" using ab st' by simp
        show ?thesis
        proof (cases "b = new")
          case True
          then have "equiv_for (m_comp s) (node_value s a) v"
            using e Fa by (simp add: val1_def)
          then show ?thesis using False at by blast
        next
          case F: False
          then have "b \<in> set_tree t" using ab st' by simp
          then show ?thesis using dk at e Fa F by (simp add: val1_def)
        qed
      qed
    qed
    have al: "m_node_alloc s = set_tree t" using H by (simp add: set_holds_def)
    have fin: "set_holds s' t'"
      unfolding set_holds_def using T2 o' dk' al st' by (simp add: s'_def cmp_def)
    have props: "m_comp s' = m_comp s" "m_tree s' = m_tree s"
      "node_value s' = (node_value s)(new := v)"
      by (simp_all add: s'_def val1_def)
    have t'e: "fst (spec_insert (node_compare (m_comp s) ((node_value s)(new := v)))
        rng (m_rng s) new t) = t'"
      by (simp add: t'_def cmp_def val1_def)
    show ?thesis
      unfolding t'e
      by (rule exI[of _ s'], rule exI[of _ "Some new"], rule exI[of _ True])
         (use run props fin False in simp)
  qed
qed

lemma set_erase_at_holds:
  assumes swo: "strict_weak_order (m_comp s)" and H: "set_holds s t" and a: "a \<in> set_tree t"
  shows "\<exists>s'. set_erase_at s (Some a) rng = Some s' \<and>
     set_holds s' (fst (spec_erase rng (m_rng s) a t)) \<and>
     m_comp s' = m_comp s \<and> m_tree s' = m_tree s \<and> node_value s' = node_value s"
proof -
  let ?tree = "m_tree s"
  let ?T = "Node t ?tree Leaf"
  define t' where "t' = fst (spec_erase rng (m_rng s) a t)"
  have T: "is_tree (store s) (Some ?tree) None ?T" using H by (simp add: set_holds_def)
  have tt: "?tree \<notin> set_tree t" using set_holds_parts(2)[OF H] .
  have ne: "?tree \<noteq> a" using tt a by auto
  have aT: "a \<in> set_tree ?T" using a by simp
  have se: "spec_erase rng (m_rng s) a ?T = (Node t' ?tree Leaf, snd (spec_erase rng (m_rng s) a t))"
    using ne a by (simp add: case_prod_beta t'_def)
  from erase_is_tree[OF T aT, of "m_rng s" rng]
  obtain h' where run: "erase (store s) (m_rng s) a rng =
        Some (h', snd (spec_erase rng (m_rng s) a t), Some ?tree)"
    and T': "is_tree h' (Some ?tree) None (Node t' ?tree Leaf)"
    unfolding se by auto
  define s' where "s' = s\<lparr>store := h', m_rng := snd (spec_erase rng (m_rng s) a t),
      m_node_alloc := m_node_alloc s - {a}\<rparr>"
  have r: "set_erase_at s (Some a) rng = Some s'"
    using run by (simp add: set_erase_at_def s'_def)
  have d: "distinct (inorder t)"
    using is_tree_distinct[OF set_holds_parts(1)[OF H]] .
  have st': "set_tree t' = set_tree t - {a}" unfolding t'_def using spec_erase_set[OF d a] .
  have o: "ordered (node_compare (m_comp s) (node_value s)) t"
    and dk: "\<forall>a \<in> set_tree t. \<forall>b \<in> set_tree t.
        equiv_for (m_comp s) (node_value s a) (node_value s b) \<longrightarrow> a = b"
    and al: "m_node_alloc s = set_tree t"
    using H by (simp_all add: set_holds_def)
  have o': "ordered (node_compare (m_comp s) (node_value s)) t'"
    unfolding t'_def using spec_erase_ordered[OF swo_node_compare[OF swo] o] .
  have "set_holds s' t'"
    unfolding set_holds_def using T' o' dk al st' by (simp add: s'_def)
  then show ?thesis using r unfolding t'_def by (auto simp: s'_def)
qed

lemma set_erase_holds:
  assumes swo: "strict_weak_order (m_comp s)" and H: "set_holds s t"
  shows "\<exists>s' n. set_erase s key rng = Some (s', n) \<and>
     m_comp s' = m_comp s \<and> m_tree s' = m_tree s \<and> node_value s' = node_value s \<and>
     (if \<exists>a \<in> set_tree t. equiv_for (m_comp s) (node_value s a) key
      then n = 1 \<and> set_find s' key = Some (set_end s') \<and>
           (\<exists>a \<in> set_tree t. equiv_for (m_comp s) (node_value s a) key \<and>
                set_holds s' (fst (spec_erase rng (m_rng s) a t)))
      else n = 0 \<and> s' = s)"
proof -
  from set_find_holds[OF swo H, of key] obtain r where r: "set_find s key = Some r"
    and rr: "if \<exists>a \<in> set_tree t. equiv_for (m_comp s) (node_value s a) key
      then \<exists>a \<in> set_tree t. r = Some a \<and> equiv_for (m_comp s) (node_value s a) key
      else r = Some (m_tree s)" by blast
  have tt: "m_tree s \<notin> set_tree t" using set_holds_parts(2)[OF H] .
  show ?thesis
  proof (cases "\<exists>a \<in> set_tree t. equiv_for (m_comp s) (node_value s a) key")
    case False
    then have "r = set_end s" using rr by (simp add: set_end_def)
    then have "set_erase s key rng = Some (s, 0)" using r by (simp add: set_erase_def)
    then show ?thesis using False by simp
  next
    case True
    then obtain a where a: "a \<in> set_tree t" "r = Some a"
      "equiv_for (m_comp s) (node_value s a) key" using rr by auto
    then have ne: "r \<noteq> set_end s" using tt by (auto simp: set_end_def)
    let ?t' = "fst (spec_erase rng (m_rng s) a t)"
    from set_erase_at_holds[OF swo H a(1), of rng]
    obtain s' where s': "set_erase_at s (Some a) rng = Some s'"
      and H': "set_holds s' ?t'"
      and same: "m_comp s' = m_comp s" "m_tree s' = m_tree s" "node_value s' = node_value s"
      by blast
    have run: "set_erase s key rng = Some (s', 1)"
      using r ne a(2) s' by (simp add: set_erase_def)
    have d: "distinct (inorder t)"
      using is_tree_distinct[OF set_holds_parts(1)[OF H]] .
    have st': "set_tree ?t' = set_tree t - {a}" using spec_erase_set[OF d a(1)] .
    have dk: "\<forall>a \<in> set_tree t. \<forall>b \<in> set_tree t.
        equiv_for (m_comp s) (node_value s a) (node_value s b) \<longrightarrow> a = b"
      using H by (simp add: set_holds_def)
    have none: "\<not> (\<exists>b \<in> set_tree ?t'. equiv_for (m_comp s') (node_value s' b) key)"
    proof
      assume "\<exists>b \<in> set_tree ?t'. equiv_for (m_comp s') (node_value s' b) key"
      then obtain b where b: "b \<in> set_tree t" "b \<noteq> a"
        "equiv_for (m_comp s) (node_value s b) key"
        using st' same by auto
      have "equiv_for (m_comp s) (node_value s b) (node_value s a)"
        using equiv_for_trans[OF swo b(3) a(3)] .
      then show False using dk b a(1) by blast
    qed
    have swo': "strict_weak_order (m_comp s')" using swo same by simp
    from set_find_holds[OF swo' H', of key] none
    have "set_find s' key = Some (set_end s')" by (auto simp: set_end_def)
    then show ?thesis using run same True a H' by auto
  qed
qed

lemma set_empty_holds: "set_holds (set_empty h val tree lt g) Leaf"
  by (simp add: set_holds_def set_empty_def)

lemma run_holds:
  assumes swo: "strict_weak_order lt"
  shows "m_comp s = lt \<Longrightarrow> set_holds s t \<Longrightarrow> admissible rng s ops \<Longrightarrow>
     \<exists>s' t'. run rng s ops = Some s' \<and> set_holds s' t' \<and> m_comp s' = lt"
proof (induction ops arbitrary: s t)
  case Nil
  then show ?case by auto
next
  case (Cons op ops)
  have swo_s: "strict_weak_order (m_comp s)" using swo Cons.prems(1) by simp
  show ?case
  proof (cases op)
    case (Insert a v)
    have fresh: "a \<notin> set_tree t" "a \<noteq> m_tree s"
      using Cons.prems(2,3) Insert by (auto simp: set_holds_def)
    from set_insert_holds[OF swo_s Cons.prems(2) fresh, of v rng]
    obtain s1 pos ins where s1: "set_insert s a v rng = Some (s1, pos, ins)"
      and c1: "m_comp s1 = m_comp s"
      and H1: "\<exists>t1. set_holds s1 t1"
      using Cons.prems(2) by (auto split: if_splits)
    then obtain t1 where t1: "set_holds s1 t1" by blast
    have "admissible rng s1 ops" using Cons.prems(3) Insert s1 by simp
    from Cons.IH[OF _ t1 this] c1 Cons.prems(1) s1 Insert
    show ?thesis by simp
  next
    case (Erase v)
    from set_erase_holds[OF swo_s Cons.prems(2), of v rng]
    obtain s1 n where s1: "set_erase s v rng = Some (s1, n)"
      and c1: "m_comp s1 = m_comp s"
      and H1: "\<exists>t1. set_holds s1 t1"
      using Cons.prems(2) by (auto split: if_splits)
    then obtain t1 where t1: "set_holds s1 t1" by blast
    have "admissible rng s1 ops" using Cons.prems(3) Erase s1 by simp
    from Cons.IH[OF _ t1 this] c1 Cons.prems(1) s1 Erase
    show ?thesis by simp
  next
    case (EraseAt a)
    have a: "a \<in> set_tree t" using Cons.prems(2,3) EraseAt by (auto simp: set_holds_def)
    from set_erase_at_holds[OF swo_s Cons.prems(2) a, of rng]
    obtain s1 where s1: "set_erase_at s (Some a) rng = Some s1"
      and c1: "m_comp s1 = m_comp s"
      and t1: "set_holds s1 (fst (spec_erase rng (m_rng s) a t))"
      by blast
    have "admissible rng s1 ops" using Cons.prems(3) EraseAt s1 by simp
    from Cons.IH[OF _ t1 this] c1 Cons.prems(1) s1 EraseAt
    show ?thesis by simp
  qed
qed


section \<open>Results of the set operations and preservation of the invariants\<close>

text \<open>
  C8: on a set that holds a tree, with a strict weak ordering and an allocator that
  returns storage not in use. \<open>insert(key)\<close> returns the flag false exactly when a value
  equal to the key is in the set; the state is then unchanged and the position is a node
  of the set whose value is equal to the key; otherwise the position is the new node and
  the set holds the tree with the new node. \<open>erase(key)\<close> returns 0 and leaves the
  state unchanged when no value is equal to the key; otherwise it returns 1 and
  \<open>find(key)\<close> is \<open>end()\<close> afterwards.
\<close>

theorem set_insert_erase_results:
  assumes "strict_weak_order (m_comp s)" and "set_holds s t"
    and "new_node \<notin> m_node_alloc s" and "new_node \<noteq> m_tree s"
  shows "(\<exists>s' pos inserted. set_insert s new_node key rng = Some (s', pos, inserted) \<and>
            (inserted = False \<longleftrightarrow>
               (\<exists>a \<in> set_tree t. equiv_for (m_comp s) (node_value s a) key)) \<and>
            (inserted = False \<longrightarrow> s' = s \<and>
               (\<exists>a \<in> set_tree t. pos = Some a \<and> equiv_for (m_comp s) (node_value s a) key)) \<and>
            (inserted = True \<longrightarrow> pos = Some new_node \<and> node_value s' new_node = key \<and>
               (\<exists>t'. set_holds s' t' \<and> set_tree t' = insert new_node (set_tree t)))) \<and>
         (\<exists>s' n. set_erase s key rng = Some (s', n) \<and>
            (if \<exists>a \<in> set_tree t. equiv_for (m_comp s) (node_value s a) key
             then n = 1 \<and> set_find s' key = Some (set_end s')
             else n = 0 \<and> s' = s))"
proof (rule conjI)
  have fresh: "new_node \<notin> set_tree t" using assms(2,3) by (simp add: set_holds_def)
  from set_insert_holds[OF assms(1,2) fresh assms(4), of key rng]
  obtain s' pos ins where run: "set_insert s new_node key rng = Some (s', pos, ins)"
    and r: "if \<exists>a \<in> set_tree t. equiv_for (m_comp s) (node_value s a) key
      then ins = False \<and> s' = s \<and>
           (\<exists>a \<in> set_tree t. pos = Some a \<and> equiv_for (m_comp s) (node_value s a) key)
      else ins = True \<and> pos = Some new_node \<and> node_value s' = (node_value s)(new_node := key) \<and>
           set_holds s' (fst (spec_insert (node_compare (m_comp s) ((node_value s)(new_node := key)))
                                rng (m_rng s) new_node t))"
    by blast
  show "\<exists>s' pos inserted. set_insert s new_node key rng = Some (s', pos, inserted) \<and>
            (inserted = False \<longleftrightarrow>
               (\<exists>a \<in> set_tree t. equiv_for (m_comp s) (node_value s a) key)) \<and>
            (inserted = False \<longrightarrow> s' = s \<and>
               (\<exists>a \<in> set_tree t. pos = Some a \<and> equiv_for (m_comp s) (node_value s a) key)) \<and>
            (inserted = True \<longrightarrow> pos = Some new_node \<and> node_value s' new_node = key \<and>
               (\<exists>t'. set_holds s' t' \<and> set_tree t' = insert new_node (set_tree t)))"
  proof (cases "\<exists>a \<in> set_tree t. equiv_for (m_comp s) (node_value s a) key")
    case True
    then show ?thesis using run r by auto
  next
    case False
    then have "ins = True" "pos = Some new_node" "node_value s' new_node = key"
      "set_holds s' (fst (spec_insert (node_compare (m_comp s) ((node_value s)(new_node := key)))
                                rng (m_rng s) new_node t))"
      using r by simp_all
    moreover have "set_tree (fst (spec_insert (node_compare (m_comp s) ((node_value s)(new_node := key)))
                                rng (m_rng s) new_node t)) = insert new_node (set_tree t)"
      by (rule spec_insert_set)
    ultimately have "set_insert s new_node key rng = Some (s', Some new_node, True) \<and>
        node_value s' new_node = key \<and>
        (\<exists>t'. set_holds s' t' \<and> set_tree t' = insert new_node (set_tree t))"
      using run by blast
    then show ?thesis using False by auto
  qed
next
  from set_erase_holds[OF assms(1,2), of key rng]
  show "\<exists>s' n. set_erase s key rng = Some (s', n) \<and>
            (if \<exists>a \<in> set_tree t. equiv_for (m_comp s) (node_value s a) key
             then n = 1 \<and> set_find s' key = Some (set_end s')
             else n = 0 \<and> s' = s)"
    by (auto split: if_splits)
qed

lemma set3_holds: "set_holds set3 tree3"
  unfolding set_holds_def
  by (auto simp: set3_def store4_def tree3_def node_compare_def equiv_for_def)

theorem set_insert_erase_results_witness:
  "(\<exists>s' pos inserted. set_insert set3 4 20 lcg = Some (s', pos, inserted) \<and>
       inserted = False \<and> s' = set3 \<and> pos = Some 2) \<and>
   (\<exists>s' pos inserted. set_insert set3 4 25 lcg = Some (s', pos, inserted) \<and>
       inserted = True \<and> pos = Some 4 \<and> node_value s' 4 = 25) \<and>
   (\<exists>s'. set_erase set3 20 lcg = Some (s', 1) \<and> set_find s' 20 = Some (set_end s')) \<and>
   set_erase set3 25 lcg = Some (set3, 0)"
proof -
  have swo: "strict_weak_order (m_comp set3)"
    using less_strict_weak_order by (simp add: set3_def)
  have fresh: "4 \<notin> m_node_alloc set3" "4 \<noteq> m_tree set3" by (simp_all add: set3_def)
  have e20: "\<exists>a \<in> set_tree tree3. equiv_for (m_comp set3) (node_value set3 a) 20"
    by (simp add: set3_def tree3_def equiv_for_def)
  have u20: "a = 2" if "equiv_for (m_comp set3) (node_value set3 a) 20" for a
    using that by (auto simp: set3_def equiv_for_def)
  have e25: "\<not> (\<exists>a \<in> set_tree tree3. equiv_for (m_comp set3) (node_value set3 a) 25)"
    by (simp add: set3_def tree3_def equiv_for_def)
  note r20 = set_insert_erase_results[OF swo set3_holds fresh, of 20 lcg]
  note r25 = set_insert_erase_results[OF swo set3_holds fresh, of 25 lcg]
  have i20: "\<exists>s' pos inserted. set_insert set3 4 20 lcg = Some (s', pos, inserted) \<and>
       inserted = False \<and> s' = set3 \<and> pos = Some 2"
  proof -
    from r20[THEN conjunct1] obtain s' pos ins where run: "set_insert set3 4 20 lcg = Some (s', pos, ins)"
      and a: "ins = False \<longleftrightarrow> (\<exists>a \<in> set_tree tree3. equiv_for (m_comp set3) (node_value set3 a) 20)"
      and b: "ins = False \<longrightarrow> s' = set3 \<and>
          (\<exists>a \<in> set_tree tree3. pos = Some a \<and> equiv_for (m_comp set3) (node_value set3 a) 20)"
      by (elim exE conjE) (rule that, assumption+)
    have "ins = False" using a e20 by simp
    moreover from this b have "s' = set3" "pos = Some 2" using u20 by auto
    ultimately show ?thesis using run by auto
  qed
  have i25: "\<exists>s' pos inserted. set_insert set3 4 25 lcg = Some (s', pos, inserted) \<and>
       inserted = True \<and> pos = Some 4 \<and> node_value s' 4 = 25"
  proof -
    from r25[THEN conjunct1] obtain s' pos ins where run: "set_insert set3 4 25 lcg = Some (s', pos, ins)"
      and a: "ins = False \<longleftrightarrow> (\<exists>a \<in> set_tree tree3. equiv_for (m_comp set3) (node_value set3 a) 25)"
      and c: "ins = True \<longrightarrow> pos = Some 4 \<and> node_value s' 4 = 25 \<and>
          (\<exists>t'. set_holds s' t' \<and> set_tree t' = insert 4 (set_tree tree3))"
      by (elim exE conjE) (rule that, assumption+)
    have "ins = True" using a e25 by simp
    then show ?thesis using run c by auto
  qed
  have x20: "\<exists>s'. set_erase set3 20 lcg = Some (s', 1) \<and> set_find s' 20 = Some (set_end s')"
    using r20[THEN conjunct2] e20 by auto
  have x25: "set_erase set3 25 lcg = Some (set3, 0)"
    using r25[THEN conjunct2] e25 by auto
  show ?thesis using i20 i25 x20 x25 by blast
qed

text \<open>
  C1: from the empty set, with a strict weak ordering, every sequence of insertions and
  erasures (by key or by position) in which the allocator returns storage not in use
  and erased positions are live nodes runs to an end, and in the final store every node
  reachable from the tree holder satisfies I1 and I2, and every node of the values
  satisfies I3 for the comparison of values.
\<close>

theorem invariants_preserved:
  assumes "strict_weak_order lt"
    and "admissible rng (set_empty h val tree lt g) ops"
  shows "\<exists>s. run rng (set_empty h val tree lt g) ops = Some s \<and>
     (\<forall>a. reach (store s) (Some (m_tree s)) a \<longrightarrow>
        I1 (store s) a \<and> I2 (store s) a \<and>
        (a \<noteq> m_tree s \<longrightarrow> I3 (store s) (node_compare (m_comp s) (node_value s)) a))"
proof -
  have c: "m_comp (set_empty h val tree lt g) = lt" by (simp add: set_empty_def)
  from run_holds[OF assms(1) c set_empty_holds assms(2)]
  obtain s t where run: "run rng (set_empty h val tree lt g) ops = Some s"
    and H: "set_holds s t" by blast
  let ?T = "Node t (m_tree s) Leaf"
  have T: "is_tree (store s) (Some (m_tree s)) None ?T"
    and o: "ordered (node_compare (m_comp s) (node_value s)) t"
    using H by (simp_all add: set_holds_def)
  have Tt: "is_tree (store s) (root s) (Some (m_tree s)) t"
    using set_holds_parts(1)[OF H] .
  have "I1 (store s) a \<and> I2 (store s) a \<and>
        (a \<noteq> m_tree s \<longrightarrow> I3 (store s) (node_compare (m_comp s) (node_value s)) a)"
    if "reach (store s) (Some (m_tree s)) a" for a
  proof -
    have a: "a \<in> set_tree ?T" using reach_in_tree[OF that T] .
    have "a \<noteq> m_tree s \<longrightarrow> a \<in> set_tree t" using a by auto
    then show ?thesis
      using I1_is_tree[OF T a] I2_is_tree[OF T a] I3_is_tree[OF Tt o] by blast
  qed
  then show ?thesis using run by blast
qed

lemma set_insert_alloc:
  "set_insert s a v rng = Some (s1, pos, ins) \<Longrightarrow>
   m_node_alloc s1 \<subseteq> insert a (m_node_alloc s) \<and> m_tree s1 = m_tree s"
  by (auto simp: set_insert_def Let_def bind_eq_Some_conv split: option.splits if_splits)

lemma set_erase_alloc:
  "set_erase s v rng = Some (s1, n) \<Longrightarrow>
   m_node_alloc s1 \<subseteq> m_node_alloc s \<and> m_tree s1 = m_tree s"
  by (auto simp: set_erase_def set_erase_at_def bind_eq_Some_conv
      split: option.splits if_splits)

theorem invariants_preserved_witness:
  "\<exists>s. run lcg (set_empty store3 val3 0 (<) 1) [Insert 1 10, Insert 2 20, Erase 10] = Some s \<and>
     (\<forall>a. reach (store s) (Some (m_tree s)) a \<longrightarrow>
        I1 (store s) a \<and> I2 (store s) a \<and>
        (a \<noteq> m_tree s \<longrightarrow> I3 (store s) (node_compare (m_comp s) (node_value s)) a))"
proof -
  let ?s0 = "set_empty store3 val3 0 (<) (1 :: 32 word)"
  have s0: "1 \<notin> m_node_alloc ?s0" "1 \<noteq> m_tree ?s0" "m_node_alloc ?s0 = {}" "m_tree ?s0 = 0"
    by (simp_all add: set_empty_def)
  have last: "admissible lcg s2 [Erase 10]" for s2 :: "(int, 32 word) rbst_set"
    by (simp split: option.splits)
  have adm: "admissible lcg ?s0 [Insert 1 10, Insert 2 20, Erase 10]"
  proof (cases "set_insert ?s0 1 10 lcg")
    case None
    then show ?thesis
      unfolding admissible.simps(2)[of lcg ?s0 1 10] using s0(1,2) by simp
  next
    case (Some r)
    obtain s1 pos ins where r: "r = (s1, pos, ins)" by (cases r) auto
    have "m_node_alloc s1 \<subseteq> {1}" "m_tree s1 = 0"
      using set_insert_alloc[OF Some[unfolded r]] s0(3,4) by simp_all
    then have f: "2 \<notin> m_node_alloc s1" "2 \<noteq> m_tree s1" by auto
    have "admissible lcg s1 [Insert 2 20, Erase 10]"
      unfolding admissible.simps(2)[of lcg s1 2 20] using f last
      by (simp split: option.splits)
    then show ?thesis
      unfolding admissible.simps(2)[of lcg ?s0 1 10] Some r using s0(1,2) by simp
  qed
  show ?thesis
    using invariants_preserved[OF less_strict_weak_order adm] .
qed

end
